theory Spec2Isabelle
  imports Main
begin

chapter \<open>The model\<close>

section \<open>Common types\<close>

text \<open>
  Keys and values are Go \<open>int64\<close>. The code only compares, copies and hashes them, never
  computes with them, so they are modelled as \<open>int\<close>. A hash entry (\<open>hash.HashEntry\<close>,
  \<open>utils.Entry\<close>) is the pair of its key and its value.
\<close>

type_synonym key = int
type_synonym val = int
type_synonym HashEntry = "key \<times> val"

text \<open>
  A Go \<open>error\<close> made by \<open>errors.New\<close> is its message. A function that returns
  \<open>error\<close> returns \<open>error option\<close> here (\<open>None\<close> is \<open>nil\<close>), together with the state
  it leaves behind.
\<close>

datatype error = Error string

section \<open>Bloom filter (pkg/query/bloom\_filter.go)\<close>

text \<open>
  The bit vector is the external \<open>bitset.BitSet\<close>: \<open>New n\<close> is \<open>n\<close> cleared bits,
  \<open>Set i\<close> sets bit \<open>i\<close> and grows the vector when \<open>i\<close> lies beyond its length,
  \<open>Test i\<close> is false beyond the length.
\<close>

definition bitset_New :: "nat \<Rightarrow> bool list" where
  "bitset_New n = replicate n False"

definition bitset_Set :: "bool list \<Rightarrow> nat \<Rightarrow> bool list" where
  "bitset_Set b i =
     (if i < length b then b[i := True]
      else b @ replicate (i - length b) False @ [True])"

definition bitset_Test :: "bool list \<Rightarrow> nat \<Rightarrow> bool" where
  "bitset_Test b i = (i < length b \<and> b ! i)"

record BloomFilter =
  size_bf :: nat
  bits :: "bool list"

text \<open>
  \<open>hash.XxHasher\<close> and \<open>hash.MurmurHasher\<close> are not part of the sources at hand; both
  take the key and the filter's size and return an unsigned position. They are the
  parameters \<open>xx\<close> and \<open>mm\<close> of the model.
\<close>

type_synonym hasher = "key \<Rightarrow> nat \<Rightarrow> nat"

definition CreateFilter :: "nat \<Rightarrow> BloomFilter" where
  "CreateFilter n = \<lparr>size_bf = n, bits = bitset_New n\<rparr>"

definition BloomFilter_Insert :: "hasher \<Rightarrow> hasher \<Rightarrow> BloomFilter \<Rightarrow> key \<Rightarrow> BloomFilter" where
  "BloomFilter_Insert xx mm flt k =
     (let xxhashRes = xx k (size_bf flt);
          murmurhashRes = mm k (size_bf flt)
      in flt\<lparr>bits := bitset_Set (bitset_Set (bits flt) xxhashRes) murmurhashRes\<rparr>)"

definition BloomFilter_Contains :: "hasher \<Rightarrow> hasher \<Rightarrow> BloomFilter \<Rightarrow> key \<Rightarrow> bool" where
  "BloomFilter_Contains xx mm flt k =
     (let xxhashRes = xx k (size_bf flt);
          murmurhashRes = mm k (size_bf flt);
          inXxHash = bitset_Test (bits flt) xxhashRes;
          inMurmurHash = bitset_Test (bits flt) murmurhashRes
      in inXxHash \<and> inMurmurHash)"

section \<open>Recovery manager (package recovery, in pkg/query/bloom\_filter.go)\<close>

subsection \<open>Log records\<close>

text \<open>
  The log record types are declared outside the sources at hand; their fields are the ones
  the recovery manager reads and writes (\<open>tblType\<close>, \<open>tblName\<close>; \<open>id\<close>, \<open>tablename\<close>,
  \<open>action\<close>, \<open>key\<close>, \<open>oldval\<close>, \<open>newval\<close>; \<open>id\<close>; \<open>id\<close>; \<open>ids\<close>). A transaction is
  named by the \<open>uuid\<close> of its client.
\<close>

type_synonym uuid = nat

datatype Action = INSERT_ACTION | UPDATE_ACTION | DELETE_ACTION

datatype Log =
    tableLog string string
  | editLog uuid string Action key val val
  | startLog uuid
  | commitLog uuid
  | checkpointLog "uuid list"

fun is_startLog :: "Log \<Rightarrow> bool" where
  "is_startLog (startLog c) = True"
| "is_startLog l = False"

fun is_editLog :: "Log \<Rightarrow> bool" where
  "is_editLog (editLog c tn a k ov nv) = True"
| "is_editLog l = False"

text \<open>
  The handlers take their command as a formatted string (\<open>"create %s table %s"\<close>,
  \<open>"insert %v %v into %s"\<close>, \<open>"update %s %v %v"\<close>, \<open>"delete %v from %s"\<close>) and parse it
  again. The model passes the command with its fields, in the order of the format.
\<close>

datatype payload =
    CreateTable string string
  | InsertInto key val string
  | UpdateSet string key val
  | DeleteFrom key string

subsection \<open>State and collaborators\<close>

text \<open>
  The recovery manager holds the database, the transaction manager, the transaction
  stack (a Go map from the client to its records) and the log file. The file is modelled
  by the list of the records written to it, oldest first; \<open>writeToBuffer\<close> appends one
  record, and the callers ignore its error, so a failing write is not part of the model.
\<close>

record ('d, 't) RecoveryManager =
  rm_d :: 'd
  rm_tm :: 't
  txStack :: "uuid \<rightharpoonup> Log list"
  rm_fd :: "Log list"

text \<open>
  The database handlers (\<open>db.HandleCreateTable\<close>, \<open>db.HandleInsert\<close>, \<open>db.HandleUpdate\<close>,
  \<open>db.HandleDelete\<close>), the handlers of the recovery package that also take the
  transaction manager, the recovery manager and the client (\<open>HandleInsert\<close>,
  \<open>HandleUpdate\<close>, \<open>HandleDelete\<close>) and the transaction manager's \<open>Begin\<close> and
  \<open>Commit\<close> are not part of the sources at hand. The functions of the recovery manager
  take them as the parameter \<open>E\<close>.
\<close>

record ('d, 't) collaborators =
  db_HandleCreateTable :: "'d \<Rightarrow> payload \<Rightarrow> error option \<times> 'd"
  db_HandleInsert :: "'d \<Rightarrow> payload \<Rightarrow> error option \<times> 'd"
  db_HandleUpdate :: "'d \<Rightarrow> payload \<Rightarrow> error option \<times> 'd"
  db_HandleDelete :: "'d \<Rightarrow> payload \<Rightarrow> error option \<times> 'd"
  HandleInsert :: "('d, 't) RecoveryManager \<Rightarrow> payload \<Rightarrow> uuid \<Rightarrow> error option \<times> ('d, 't) RecoveryManager"
  HandleUpdate :: "('d, 't) RecoveryManager \<Rightarrow> payload \<Rightarrow> uuid \<Rightarrow> error option \<times> ('d, 't) RecoveryManager"
  HandleDelete :: "('d, 't) RecoveryManager \<Rightarrow> payload \<Rightarrow> uuid \<Rightarrow> error option \<times> ('d, 't) RecoveryManager"
  tm_Begin :: "'t \<Rightarrow> uuid \<Rightarrow> error option \<times> 't"
  tm_Commit :: "'t \<Rightarrow> uuid \<Rightarrow> error option \<times> 't"

subsection \<open>Writing log records\<close>

definition writeToBuffer :: "('d, 't) RecoveryManager \<Rightarrow> Log \<Rightarrow> ('d, 't) RecoveryManager" where
  "writeToBuffer rm s = rm\<lparr>rm_fd := rm_fd rm @ [s]\<rparr>"

text \<open>\<open>rm.txStack[clientId]\<close> read as a value: the nil slice when the client has no entry.\<close>

definition txStack_get :: "('d, 't) RecoveryManager \<Rightarrow> uuid \<Rightarrow> Log list" where
  "txStack_get rm clientId = (case txStack rm clientId of None \<Rightarrow> [] | Some l \<Rightarrow> l)"

definition RecoveryManager_Table :: "('d, 't) RecoveryManager \<Rightarrow> string \<Rightarrow> string \<Rightarrow> ('d, 't) RecoveryManager" where
  "RecoveryManager_Table rm tblType tblName = writeToBuffer rm (tableLog tblType tblName)"

definition RecoveryManager_Edit ::
  "('d, 't) RecoveryManager \<Rightarrow> uuid \<Rightarrow> string \<Rightarrow> Action \<Rightarrow> key \<Rightarrow> val \<Rightarrow> val \<Rightarrow> ('d, 't) RecoveryManager" where
  "RecoveryManager_Edit rm clientId tbl act k ov nv =
     (let log = editLog clientId tbl act k ov nv;
          rm1 = writeToBuffer rm log
      in rm1\<lparr>txStack := (txStack rm1)(clientId \<mapsto> txStack_get rm1 clientId @ [log])\<rparr>)"

definition RecoveryManager_Start :: "('d, 't) RecoveryManager \<Rightarrow> uuid \<Rightarrow> ('d, 't) RecoveryManager" where
  "RecoveryManager_Start rm clientId =
     (let log = startLog clientId;
          rm1 = writeToBuffer rm log
      in rm1\<lparr>txStack := (txStack rm1)(clientId \<mapsto> txStack_get rm1 clientId @ [log])\<rparr>)"

text \<open>
  \<open>Commit\<close> deletes the client's entry, writes the record, and then appends the record to
  the client's entry again (which the deletion has just made empty).
\<close>

definition RecoveryManager_Commit :: "('d, 't) RecoveryManager \<Rightarrow> uuid \<Rightarrow> ('d, 't) RecoveryManager" where
  "RecoveryManager_Commit rm clientId =
     (let log = commitLog clientId;
          rm1 = rm\<lparr>txStack := (txStack rm)(clientId := None)\<rparr>;
          rm2 = writeToBuffer rm1 log
      in rm2\<lparr>txStack := (txStack rm2)(clientId \<mapsto> txStack_get rm2 clientId @ [log])\<rparr>)"

text \<open>
  The variant of \<open>Commit\<close> that the specification asks for: the same, without the
  append that follows the write.
\<close>

definition Commit_elided :: "('d, 't) RecoveryManager \<Rightarrow> uuid \<Rightarrow> ('d, 't) RecoveryManager" where
  "Commit_elided rm clientId =
     (let log = commitLog clientId;
          rm1 = rm\<lparr>txStack := (txStack rm)(clientId := None)\<rparr>
      in writeToBuffer rm1 log)"

text \<open>
  \<open>Checkpoint\<close> flushes the pages of every table and copies the database directory
  (\<open>Delta\<close>); neither changes what the tables hold, and the model leaves both out. It
  writes the clients that have an entry in the transaction stack. Go ranges over a map in
  no fixed order; the model lists them in ascending order.
\<close>

definition RecoveryManager_Checkpoint :: "('d, 't) RecoveryManager \<Rightarrow> ('d, 't) RecoveryManager" where
  "RecoveryManager_Checkpoint rm =
     writeToBuffer rm (checkpointLog (sorted_list_of_set (dom (txStack rm))))"

subsection \<open>Redo and undo of one record\<close>

fun RecoveryManager_Redo ::
  "('d, 't) collaborators \<Rightarrow> ('d, 't) RecoveryManager \<Rightarrow> Log \<Rightarrow> error option \<times> ('d, 't) RecoveryManager" where
  "RecoveryManager_Redo E rm (tableLog tblType tblName) =
     (case db_HandleCreateTable E (rm_d rm) (CreateTable tblType tblName) of
        (err, d') \<Rightarrow> (err, rm\<lparr>rm_d := d'\<rparr>))"
| "RecoveryManager_Redo E rm (editLog c tn INSERT_ACTION k ov nv) =
     (case db_HandleInsert E (rm_d rm) (InsertInto k nv tn) of
        (None, d') \<Rightarrow> (None, rm\<lparr>rm_d := d'\<rparr>)
      | (Some e, d') \<Rightarrow>
          (case db_HandleUpdate E d' (UpdateSet tn k nv) of
             (err, d'') \<Rightarrow> (err, rm\<lparr>rm_d := d''\<rparr>)))"
| "RecoveryManager_Redo E rm (editLog c tn UPDATE_ACTION k ov nv) =
     (case db_HandleUpdate E (rm_d rm) (UpdateSet tn k nv) of
        (None, d') \<Rightarrow> (None, rm\<lparr>rm_d := d'\<rparr>)
      | (Some e, d') \<Rightarrow>
          (case db_HandleInsert E d' (InsertInto k nv tn) of
             (err, d'') \<Rightarrow> (err, rm\<lparr>rm_d := d''\<rparr>)))"
| "RecoveryManager_Redo E rm (editLog c tn DELETE_ACTION k ov nv) =
     (case db_HandleDelete E (rm_d rm) (DeleteFrom k tn) of
        (err, d') \<Rightarrow> (err, rm\<lparr>rm_d := d'\<rparr>))"
| "RecoveryManager_Redo E rm l = (Some (Error ''can only redo edit logs''), rm)"

fun RecoveryManager_Undo ::
  "('d, 't) collaborators \<Rightarrow> ('d, 't) RecoveryManager \<Rightarrow> Log \<Rightarrow> error option \<times> ('d, 't) RecoveryManager" where
  "RecoveryManager_Undo E rm (editLog c tn INSERT_ACTION k ov nv) =
     HandleDelete E rm (DeleteFrom k tn) c"
| "RecoveryManager_Undo E rm (editLog c tn UPDATE_ACTION k ov nv) =
     HandleUpdate E rm (UpdateSet tn k ov) c"
| "RecoveryManager_Undo E rm (editLog c tn DELETE_ACTION k ov nv) =
     HandleInsert E rm (InsertInto k ov tn) c"
| "RecoveryManager_Undo E rm l = (Some (Error ''can only undo edit logs''), rm)"

subsection \<open>Rollback\<close>

text \<open>
  The loop \<open>for ptr := len(log) - 1; ptr >= 0; ptr--\<close>: the counter of the model is
  \<open>ptr + 1\<close>. It runs over the slice read from the stack before the loop; what the
  handlers append to the stack meanwhile is not visited.
\<close>

fun Rollback_loop ::
  "('d, 't) collaborators \<Rightarrow> Log list \<Rightarrow> nat \<Rightarrow> ('d, 't) RecoveryManager \<Rightarrow> error option \<times> ('d, 't) RecoveryManager" where
  "Rollback_loop E log 0 rm = (None, rm)"
| "Rollback_loop E log (Suc ptr) rm =
     (if is_editLog (log ! ptr) then
        (case RecoveryManager_Undo E rm (log ! ptr) of
           (Some err, rm') \<Rightarrow> (Some err, rm')
         | (None, rm') \<Rightarrow> Rollback_loop E log ptr rm')
      else Rollback_loop E log ptr rm)"

text \<open>\<open>rm.Commit(clientId)\<close> followed by \<open>rm.tm.Commit(clientId)\<close>, whose error is returned.\<close>

definition commit_both ::
  "('d, 't) collaborators \<Rightarrow> ('d, 't) RecoveryManager \<Rightarrow> uuid \<Rightarrow> error option \<times> ('d, 't) RecoveryManager" where
  "commit_both E rm clientId =
     (let rm1 = RecoveryManager_Commit rm clientId in
      case tm_Commit E (rm_tm rm1) clientId of
        (err, t') \<Rightarrow> (err, rm1\<lparr>rm_tm := t'\<rparr>))"

definition RecoveryManager_Rollback ::
  "('d, 't) collaborators \<Rightarrow> ('d, 't) RecoveryManager \<Rightarrow> uuid \<Rightarrow> error option \<times> ('d, 't) RecoveryManager" where
  "RecoveryManager_Rollback E rm clientId =
     (case txStack rm clientId of
        None \<Rightarrow> (None, rm)
      | Some log \<Rightarrow>
          if length log > 0 then
            (if \<not> is_startLog (log ! 0) then (Some (Error ''incorrect format''), rm)
             else (case Rollback_loop E log (length log) rm of
                     (Some err, rm') \<Rightarrow> (Some err, rm')
                   | (None, rm') \<Rightarrow> commit_both E rm' clientId))
          else commit_both E rm clientId)"

text \<open>
  The specification's words for \<open>Rollback\<close>, to compare with the code: replay the stack in
  LIFO order, applying the inverse of each edit (an insert is deleted, an update is set
  back to the old value, a delete is inserted again with the old value) through the
  handlers, stop at the first handler error, and finish by writing the commit.
\<close>

fun inverse_edit ::
  "('d, 't) collaborators \<Rightarrow> ('d, 't) RecoveryManager \<Rightarrow> Log \<Rightarrow> error option \<times> ('d, 't) RecoveryManager" where
  "inverse_edit E rm (editLog c tn INSERT_ACTION k ov nv) = HandleDelete E rm (DeleteFrom k tn) c"
| "inverse_edit E rm (editLog c tn UPDATE_ACTION k ov nv) = HandleUpdate E rm (UpdateSet tn k ov) c"
| "inverse_edit E rm (editLog c tn DELETE_ACTION k ov nv) = HandleInsert E rm (InsertInto k ov tn) c"
| "inverse_edit E rm l = (None, rm)"

fun replay_inverse ::
  "('d, 't) collaborators \<Rightarrow> Log list \<Rightarrow> ('d, 't) RecoveryManager \<Rightarrow> error option \<times> ('d, 't) RecoveryManager" where
  "replay_inverse E [] rm = (None, rm)"
| "replay_inverse E (l # ls) rm =
     (case inverse_edit E rm l of
        (Some err, rm') \<Rightarrow> (Some err, rm')
      | (None, rm') \<Rightarrow> replay_inverse E ls rm')"

definition Rollback_spec ::
  "('d, 't) collaborators \<Rightarrow> ('d, 't) RecoveryManager \<Rightarrow> uuid \<Rightarrow> Log list \<Rightarrow> error option \<times> ('d, 't) RecoveryManager" where
  "Rollback_spec E rm clientId stack =
     (if \<not> is_startLog (hd stack) then (Some (Error ''incorrect format''), rm)
      else (case replay_inverse E (rev stack) rm of
              (Some err, rm') \<Rightarrow> (Some err, rm')
            | (None, rm') \<Rightarrow>
                (case tm_Commit E (rm_tm rm') clientId of
                   (err, t') \<Rightarrow>
                     (err, rm'\<lparr>rm_tm := t',
                               txStack := (txStack rm')(clientId \<mapsto> [commitLog clientId]),
                               rm_fd := rm_fd rm' @ [commitLog clientId]\<rparr>))))"

subsection \<open>Recover\<close>

text \<open>
  Modelled from the spec: \<open>readLogs\<close>, which is not part of the sources at hand. It
  returns every record of the log file and the position of the most recent checkpoint
  (position 0 when there is none). The file of the model holds records, so reading it
  cannot fail on a malformed line.
\<close>

fun is_checkpointLog :: "Log \<Rightarrow> bool" where
  "is_checkpointLog (checkpointLog cs) = True"
| "is_checkpointLog l = False"

definition readLogs :: "('d, 't) RecoveryManager \<Rightarrow> Log list \<times> nat" where
  "readLogs rm =
     (let log = rm_fd rm in
      (log, case filter (\<lambda>i. is_checkpointLog (log ! i)) (rev [0..<length log]) of
              [] \<Rightarrow> 0 | i # _ \<Rightarrow> i))"

text \<open>
  The body of the first loop for one record. \<open>currentActivate\<close> is a Go map used as a set
  (only the presence of a key is read). The errors of \<open>Redo\<close>, \<open>Begin\<close> and \<open>Commit\<close> are
  dropped there, as in the code.
\<close>

fun begin_all :: "('d, 't) collaborators \<Rightarrow> uuid list \<Rightarrow> ('d, 't) RecoveryManager \<times> uuid set \<Rightarrow> ('d, 't) RecoveryManager \<times> uuid set" where
  "begin_all E [] s = s"
| "begin_all E (txn # txns) (rm, currentActivate) =
     begin_all E txns (rm\<lparr>rm_tm := snd (tm_Begin E (rm_tm rm) txn)\<rparr>, insert txn currentActivate)"

fun redo_step :: "('d, 't) collaborators \<Rightarrow> Log \<Rightarrow> ('d, 't) RecoveryManager \<times> uuid set \<Rightarrow> ('d, 't) RecoveryManager \<times> uuid set" where
  "redo_step E (tableLog ty nm) (rm, currentActivate) =
     (snd (RecoveryManager_Redo E rm (tableLog ty nm)), currentActivate)"
| "redo_step E (checkpointLog cs) (rm, currentActivate) = begin_all E cs (rm, currentActivate)"
| "redo_step E (editLog c tn a k ov nv) (rm, currentActivate) =
     (snd (RecoveryManager_Redo E rm (editLog c tn a k ov nv)), insert c currentActivate)"
| "redo_step E (startLog c) (rm, currentActivate) =
     (rm\<lparr>rm_tm := snd (tm_Begin E (rm_tm rm) c)\<rparr>, insert c currentActivate)"
| "redo_step E (commitLog c) (rm, currentActivate) =
     (rm\<lparr>rm_tm := snd (tm_Commit E (rm_tm rm) c)\<rparr>, currentActivate - {c})"

function Recover_redo ::
  "('d, 't) collaborators \<Rightarrow> Log list \<Rightarrow> nat \<Rightarrow> ('d, 't) RecoveryManager \<times> uuid set \<Rightarrow> ('d, 't) RecoveryManager \<times> uuid set" where
  "Recover_redo E log ptr s =
     (if int ptr \<le> int (length log) - 1
      then Recover_redo E log (ptr + 1) (redo_step E (log ! ptr) s)
      else s)"
  by pat_completeness auto
termination
  by (relation "measure (\<lambda>(E, log, ptr, s). length log - ptr)") auto

declare Recover_redo.simps [simp del]

text \<open>The second loop, \<open>for undoPtr >= 0\<close> from the last record down; the counter is \<open>undoPtr + 1\<close>.\<close>

fun Recover_undo ::
  "('d, 't) collaborators \<Rightarrow> Log list \<Rightarrow> nat \<Rightarrow> ('d, 't) RecoveryManager \<times> uuid set \<Rightarrow> error option \<times> ('d, 't) RecoveryManager" where
  "Recover_undo E log 0 (rm, currentActivate) = (None, rm)"
| "Recover_undo E log (Suc undoPtr) (rm, currentActivate) =
     (case log ! undoPtr of
        editLog c tn a k ov nv \<Rightarrow>
          if c \<in> currentActivate then
            (case RecoveryManager_Undo E rm (log ! undoPtr) of
               (Some err, rm') \<Rightarrow> (Some err, rm')
             | (None, rm') \<Rightarrow> Recover_undo E log undoPtr (rm', currentActivate))
          else Recover_undo E log undoPtr (rm, currentActivate)
      | startLog c \<Rightarrow>
          if c \<in> currentActivate then
            (let rm1 = RecoveryManager_Commit rm c in
             case tm_Commit E (rm_tm rm1) c of
               (Some err, t') \<Rightarrow> (Some err, rm1\<lparr>rm_tm := t'\<rparr>)
             | (None, t') \<Rightarrow> Recover_undo E log undoPtr (rm1\<lparr>rm_tm := t'\<rparr>, currentActivate - {c}))
          else Recover_undo E log undoPtr (rm, currentActivate)
      | _ \<Rightarrow> Recover_undo E log undoPtr (rm, currentActivate))"

definition RecoveryManager_Recover ::
  "('d, 't) collaborators \<Rightarrow> ('d, 't) RecoveryManager \<Rightarrow> error option \<times> ('d, 't) RecoveryManager" where
  "RecoveryManager_Recover E rm =
     (case readLogs rm of
        (log, ptr) \<Rightarrow> Recover_undo E log (length log) (Recover_redo E log ptr (rm, {})))"

subsection \<open>The collaborators, from the specification\<close>

text \<open>
  Modelled from the spec: the database and its handlers (\<open>db.HandleCreateTable\<close>,
  \<open>db.HandleInsert\<close>, \<open>db.HandleUpdate\<close>, \<open>db.HandleDelete\<close>), which are not part of
  the sources at hand. A database is its tables by name, a table is the value of each key it
  holds. An insert fails on a key that is there (redo then falls back to an update), an
  update and a delete fail on a key that is not there, and each fails on a table that does
  not exist.
\<close>

type_synonym Database = "string \<rightharpoonup> (key \<rightharpoonup> val)"

fun spec_db_HandleCreateTable :: "Database \<Rightarrow> payload \<Rightarrow> error option \<times> Database" where
  "spec_db_HandleCreateTable db (CreateTable ty nm) =
     (case db nm of
        Some t \<Rightarrow> (Some (Error ''table already exists''), db)
      | None \<Rightarrow> (None, db(nm \<mapsto> Map.empty)))"
| "spec_db_HandleCreateTable db p = (Some (Error ''bad payload''), db)"

fun spec_db_HandleInsert :: "Database \<Rightarrow> payload \<Rightarrow> error option \<times> Database" where
  "spec_db_HandleInsert db (InsertInto k v tn) =
     (case db tn of
        None \<Rightarrow> (Some (Error ''table not found''), db)
      | Some t \<Rightarrow>
          (case t k of
             Some v' \<Rightarrow> (Some (Error ''key already exists''), db)
           | None \<Rightarrow> (None, db(tn \<mapsto> t(k \<mapsto> v)))))"
| "spec_db_HandleInsert db p = (Some (Error ''bad payload''), db)"

fun spec_db_HandleUpdate :: "Database \<Rightarrow> payload \<Rightarrow> error option \<times> Database" where
  "spec_db_HandleUpdate db (UpdateSet tn k v) =
     (case db tn of
        None \<Rightarrow> (Some (Error ''table not found''), db)
      | Some t \<Rightarrow>
          (case t k of
             None \<Rightarrow> (Some (Error ''not found''), db)
           | Some v' \<Rightarrow> (None, db(tn \<mapsto> t(k \<mapsto> v)))))"
| "spec_db_HandleUpdate db p = (Some (Error ''bad payload''), db)"

fun spec_db_HandleDelete :: "Database \<Rightarrow> payload \<Rightarrow> error option \<times> Database" where
  "spec_db_HandleDelete db (DeleteFrom k tn) =
     (case db tn of
        None \<Rightarrow> (Some (Error ''table not found''), db)
      | Some t \<Rightarrow>
          (case t k of
             None \<Rightarrow> (Some (Error ''not found''), db)
           | Some v' \<Rightarrow> (None, db(tn \<mapsto> t(k := None)))))"
| "spec_db_HandleDelete db p = (Some (Error ''bad payload''), db)"

definition db_Find :: "Database \<Rightarrow> string \<Rightarrow> key \<Rightarrow> val option" where
  "db_Find db tn k = (case db tn of None \<Rightarrow> None | Some t \<Rightarrow> t k)"

text \<open>
  Modelled from the spec: the handlers of the recovery package (\<open>HandleInsert\<close>,
  \<open>HandleUpdate\<close>, \<open>HandleDelete\<close> with the transaction manager, the recovery manager
  and the client), which are not part of the sources at hand. They are the logged entry
  points: the edit is written to the log (with \<open>Edit\<close>, which also pushes it on the
  client's stack) and applied to the database. The locks they take are not modelled.
\<close>

fun spec_HandleInsert ::
  "(Database, 't) RecoveryManager \<Rightarrow> payload \<Rightarrow> uuid \<Rightarrow> error option \<times> (Database, 't) RecoveryManager" where
  "spec_HandleInsert rm (InsertInto k v tn) c =
     (case spec_db_HandleInsert (rm_d rm) (InsertInto k v tn) of
        (Some err, db') \<Rightarrow> (Some err, rm)
      | (None, db') \<Rightarrow> (None, (RecoveryManager_Edit rm c tn INSERT_ACTION k 0 v)\<lparr>rm_d := db'\<rparr>))"
| "spec_HandleInsert rm p c = (Some (Error ''bad payload''), rm)"

fun spec_HandleUpdate ::
  "(Database, 't) RecoveryManager \<Rightarrow> payload \<Rightarrow> uuid \<Rightarrow> error option \<times> (Database, 't) RecoveryManager" where
  "spec_HandleUpdate rm (UpdateSet tn k v) c =
     (case spec_db_HandleUpdate (rm_d rm) (UpdateSet tn k v) of
        (Some err, db') \<Rightarrow> (Some err, rm)
      | (None, db') \<Rightarrow>
          (case db_Find (rm_d rm) tn k of
             None \<Rightarrow> (Some (Error ''not found''), rm)
           | Some ov \<Rightarrow> (None, (RecoveryManager_Edit rm c tn UPDATE_ACTION k ov v)\<lparr>rm_d := db'\<rparr>)))"
| "spec_HandleUpdate rm p c = (Some (Error ''bad payload''), rm)"

fun spec_HandleDelete ::
  "(Database, 't) RecoveryManager \<Rightarrow> payload \<Rightarrow> uuid \<Rightarrow> error option \<times> (Database, 't) RecoveryManager" where
  "spec_HandleDelete rm (DeleteFrom k tn) c =
     (case spec_db_HandleDelete (rm_d rm) (DeleteFrom k tn) of
        (Some err, db') \<Rightarrow> (Some err, rm)
      | (None, db') \<Rightarrow>
          (case db_Find (rm_d rm) tn k of
             None \<Rightarrow> (Some (Error ''not found''), rm)
           | Some ov \<Rightarrow> (None, (RecoveryManager_Edit rm c tn DELETE_ACTION k ov 0)\<lparr>rm_d := db'\<rparr>)))"
| "spec_HandleDelete rm p c = (Some (Error ''bad payload''), rm)"

text \<open>
  Modelled from the spec: the transaction manager, which is not part of the sources at
  hand, as the registry of the running transactions. \<open>Begin\<close> enters the client,
  \<open>Commit\<close> removes it.
\<close>

definition spec_tm_Begin :: "uuid set \<Rightarrow> uuid \<Rightarrow> error option \<times> uuid set" where
  "spec_tm_Begin t c = (None, insert c t)"

definition spec_tm_Commit :: "uuid set \<Rightarrow> uuid \<Rightarrow> error option \<times> uuid set" where
  "spec_tm_Commit t c = (None, t - {c})"

definition spec_collaborators :: "(Database, uuid set) collaborators" where
  "spec_collaborators =
     \<lparr>db_HandleCreateTable = spec_db_HandleCreateTable,
      db_HandleInsert = spec_db_HandleInsert,
      db_HandleUpdate = spec_db_HandleUpdate,
      db_HandleDelete = spec_db_HandleDelete,
      HandleInsert = spec_HandleInsert,
      HandleUpdate = spec_HandleUpdate,
      HandleDelete = spec_HandleDelete,
      tm_Begin = spec_tm_Begin,
      tm_Commit = spec_tm_Commit\<rparr>"

text \<open>A recovery manager opened on a fresh database, with the log file \<open>log\<close>.\<close>

definition fresh_rm :: "Log list \<Rightarrow> (Database, uuid set) RecoveryManager" where
  "fresh_rm log = \<lparr>rm_d = Map.empty, rm_tm = {}, txStack = Map.empty, rm_fd = log\<rparr>"

section \<open>Pager (package pager)\<close>

subsection \<open>The residency lists\<close>

text \<open>
  The pager keeps three lists of package \<open>list\<close> and uses \<open>PeekHead\<close>, \<open>PushTail\<close>,
  \<open>PopSelf\<close> and \<open>GetList\<close> of it. A list is modelled by the values of its links, from the
  head on; the values are the pager's page objects, each named by its index in the frame
  buffer. \<open>PushTail\<close> makes a new link at the tail. \<open>PopSelf\<close> takes the link out of its
  list: the code moves \<open>head\<close> or \<open>tail\<close> past the link, or, for a link in the middle,
  finds it from the head by its value and joins its neighbours. A page is the value of at
  most one link of a list (\<open>pager_inv\<close> below keeps the lists distinct), so the value that
  leaves the sequence is the link's.
\<close>

definition PeekHead :: "nat list \<Rightarrow> nat option" where
  "PeekHead l = (case l of [] \<Rightarrow> None | v # _ \<Rightarrow> Some v)"

definition PushTail :: "nat list \<Rightarrow> nat \<Rightarrow> nat list" where
  "PushTail l v = l @ [v]"

definition PopSelf :: "nat list \<Rightarrow> nat \<Rightarrow> nat list" where
  "PopSelf l v = remove1 v l"

subsection \<open>Pages and the pager\<close>

text \<open>
  A page has its page number (\<open>NOPAGE = -1\<close> while it is unassigned), its pin count and
  its dirty flag; the bytes it holds play no part in the residency of pages and are left
  out. The pager owns \<open>NUMPAGES\<close> page objects (\<open>pages\<close>, by frame index). A value of the
  page table is a link: the list the link was pushed on (\<open>GetList\<close>) and the page it
  holds (\<open>GetKey\<close>). \<open>hasFile\<close> says that the pager is backed by a file.
\<close>

datatype listid = FreeList | UnpinnedList | PinnedList

record Page =
  pagenum :: int
  pinCount :: int
  dirty :: bool

record Pager =
  hasFile :: bool
  maxPageNum :: int
  pages :: "Page list"
  freeList :: "nat list"
  unpinnedList :: "nat list"
  pinnedList :: "nat list"
  pageTable :: "int \<rightharpoonup> listid \<times> nat"

definition NOPAGE :: int where
  "NOPAGE = -1"

text \<open>\<open>NUMPAGES\<close> is a constant of package \<open>config\<close>; it is the parameter of \<open>NewPager\<close>.\<close>

definition NewPager :: "nat \<Rightarrow> Pager" where
  "NewPager NUMPAGES =
     \<lparr>hasFile = False, maxPageNum = 0,
      pages = replicate NUMPAGES \<lparr>pagenum = NOPAGE, pinCount = 0, dirty = False\<rparr>,
      freeList = [0..<NUMPAGES], unpinnedList = [], pinnedList = [],
      pageTable = Map.empty\<rparr>"

text \<open>
  \<open>Open\<close>, for a file of \<open>len\<close> bytes and the page size \<open>PAGESIZE\<close>: the file is set
  before its length is checked.
\<close>

definition Pager_Open :: "int \<Rightarrow> Pager \<Rightarrow> int \<Rightarrow> error option \<times> Pager" where
  "Pager_Open PAGESIZE pager len =
     (if len mod PAGESIZE \<noteq> 0
      then (Some (Error ''open: DB file has been corrupted''), pager\<lparr>hasFile := True\<rparr>)
      else (None, pager\<lparr>hasFile := True, maxPageNum := len div PAGESIZE\<rparr>))"

definition Pager_FlushPage :: "Pager \<Rightarrow> nat \<Rightarrow> Pager" where
  "Pager_FlushPage pager f =
     (if dirty (pages pager ! f) \<and> hasFile pager
      then pager\<lparr>pages := (pages pager)[f := (pages pager ! f)\<lparr>dirty := False\<rparr>]\<rparr>
      else pager)"

text \<open>The end of \<open>NewPage\<close>: the page is bound to the page number, with pin count 1.\<close>

definition bindPage :: "Pager \<Rightarrow> nat \<Rightarrow> int \<Rightarrow> Pager" where
  "bindPage pager f pn =
     pager\<lparr>pages := (pages pager)[f := \<lparr>pagenum = pn, pinCount = 1, dirty = False\<rparr>]\<rparr>"

definition Pager_NewPage :: "Pager \<Rightarrow> int \<Rightarrow> (error + nat) \<times> Pager" where
  "Pager_NewPage pager pn =
     (case PeekHead (freeList pager) of
        Some f \<Rightarrow>
          (let pager1 = pager\<lparr>freeList := PopSelf (freeList pager) f\<rparr>
           in (Inr f, bindPage pager1 f pn))
      | None \<Rightarrow>
          if \<not> hasFile pager then (Inl (Error ''pager is not backed by disk''), pager)
          else
            (case PeekHead (unpinnedList pager) of
               Some f \<Rightarrow>
                 (let pager1 = pager\<lparr>unpinnedList := PopSelf (unpinnedList pager) f\<rparr>;
                      pager2 = Pager_FlushPage pager1 f;
                      pager3 = pager2\<lparr>pageTable := (pageTable pager2)(pagenum (pages pager2 ! f) := None)\<rparr>
                  in (Inr f, bindPage pager3 f pn))
             | None \<Rightarrow> (Inl (Error ''no page in either list''), pager)))"

text \<open>
  \<open>ReadPageFromDisk\<close> seeks and reads the file. Without a file (\<open>pager.file\<close> is nil) the
  seek returns an error; with a file the outcome is the operating system's, the parameter
  \<open>io\<close> (true when the read succeeds).
\<close>

definition read_error :: error where
  "read_error = Error ''read''"

definition Pager_ReadPageFromDisk :: "bool \<Rightarrow> Pager \<Rightarrow> error option" where
  "Pager_ReadPageFromDisk io pager = (if hasFile pager \<and> io then None else Some read_error)"

text \<open>
  Modelled from the spec: \<open>Page.Get\<close>, which is not part of the sources at hand, bumps the
  pin count.
\<close>

definition Page_Get :: "Pager \<Rightarrow> nat \<Rightarrow> Pager" where
  "Page_Get pager f =
     pager\<lparr>pages := (pages pager)[f := (pages pager ! f)\<lparr>pinCount := pinCount (pages pager ! f) + 1\<rparr>]\<rparr>"

definition Pager_GetPage :: "bool \<Rightarrow> Pager \<Rightarrow> int \<Rightarrow> (error + nat) \<times> Pager" where
  "Pager_GetPage io pager pn =
     (if pn < 0 then (Inl (Error ''invalid page number''), pager)
      else
        (case pageTable pager pn of
           Some (l, f) \<Rightarrow>
             (let pager1 =
                    (if l = UnpinnedList
                     then pager\<lparr>unpinnedList := PopSelf (unpinnedList pager) f,
                                pinnedList := PushTail (pinnedList pager) f,
                                pageTable := (pageTable pager)(pn \<mapsto> (PinnedList, f))\<rparr>
                     else pager)
              in (Inr f, Page_Get pager1 f))
         | None \<Rightarrow>
             (case Pager_NewPage pager pn of
                (Inl err, pager1) \<Rightarrow> (Inl err, pager1)
              | (Inr f, pager1) \<Rightarrow>
                  (if pn < maxPageNum pager1 then
                     (case Pager_ReadPageFromDisk io pager1 of
                        Some err \<Rightarrow> (Inl err, pager1)
                      | None \<Rightarrow>
                          (Inr f, pager1\<lparr>pinnedList := PushTail (pinnedList pager1) f,
                                          pageTable := (pageTable pager1)(pn \<mapsto> (PinnedList, f))\<rparr>))
                   else
                     (let pager2 = pager1\<lparr>pages := (pages pager1)[f := (pages pager1 ! f)\<lparr>dirty := True\<rparr>],
                                           maxPageNum := maxPageNum pager1 + 1\<rparr>
                      in (Inr f, pager2\<lparr>pinnedList := PushTail (pinnedList pager2) f,
                                         pageTable := (pageTable pager2)(pn \<mapsto> (PinnedList, f))\<rparr>))))))"

text \<open>
  Modelled from the spec: \<open>Page.Put\<close>, which is not part of the sources at hand:
  "decrement pin count; if it reaches zero, splice to unpinned tail". The page table
  follows the page to its new link, as \<open>GetPage\<close> reads the list of a page from there.
\<close>

definition Page_Put :: "Pager \<Rightarrow> nat \<Rightarrow> Pager" where
  "Page_Put pager f =
     (let pc = pinCount (pages pager ! f) - 1;
          pager1 = pager\<lparr>pages := (pages pager)[f := (pages pager ! f)\<lparr>pinCount := pc\<rparr>]\<rparr>
      in if pc = 0
         then pager1\<lparr>pinnedList := PopSelf (pinnedList pager1) f,
                     unpinnedList := PushTail (unpinnedList pager1) f,
                     pageTable := (pageTable pager1)(pagenum (pages pager1 ! f) \<mapsto> (UnpinnedList, f))\<rparr>
         else pager1)"

subsection \<open>Sequences of GetPage and Put\<close>

text \<open>
  The pagers that \<open>GetPage\<close> and \<open>Put\<close> calls reach from a new pager of \<open>n\<close> frames, in
  memory or opened on a file. A caller puts a page that it holds, that is, a page of the
  pinned list. \<open>reach\<close> follows every call, whatever it returns; \<open>reach_read_ok\<close> leaves
  out the calls of \<open>GetPage\<close> that fail in \<open>ReadPageFromDisk\<close>.
\<close>

inductive reach :: "nat \<Rightarrow> Pager \<Rightarrow> bool" for n :: nat where
  reach_new: "reach n (NewPager n)"
| reach_open: "reach n (snd (Pager_Open PAGESIZE (NewPager n) len))"
| reach_get: "reach n pager \<Longrightarrow> reach n (snd (Pager_GetPage io pager pn))"
| reach_put: "reach n pager \<Longrightarrow> f \<in> set (pinnedList pager) \<Longrightarrow> reach n (Page_Put pager f)"

inductive reach_read_ok :: "nat \<Rightarrow> Pager \<Rightarrow> bool" for n :: nat where
  ok_new: "reach_read_ok n (NewPager n)"
| ok_open: "reach_read_ok n (snd (Pager_Open PAGESIZE (NewPager n) len))"
| ok_get: "reach_read_ok n pager \<Longrightarrow> fst (Pager_GetPage io pager pn) \<noteq> Inl read_error \<Longrightarrow>
           reach_read_ok n (snd (Pager_GetPage io pager pn))"
| ok_put: "reach_read_ok n pager \<Longrightarrow> f \<in> set (pinnedList pager) \<Longrightarrow>
           reach_read_ok n (Page_Put pager f)"

text \<open>The sum of the pin counts of the resident pages (the pages of the pinned and the unpinned list).\<close>

definition sumPinCounts :: "Pager \<Rightarrow> int" where
  "sumPinCounts pager =
     sum_list (map (\<lambda>f. pinCount (pages pager ! f)) (pinnedList pager @ unpinnedList pager))"

text \<open>The invariant of the residency lists that the proofs carry.\<close>

definition pager_inv :: "Pager \<Rightarrow> bool" where
  "pager_inv pager \<longleftrightarrow>
     distinct (freeList pager @ unpinnedList pager @ pinnedList pager) \<and>
     (\<forall>f \<in> set (freeList pager @ unpinnedList pager @ pinnedList pager). f < length (pages pager)) \<and>
     (\<forall>f \<in> set (pinnedList pager). 1 \<le> pinCount (pages pager ! f)) \<and>
     (\<forall>f \<in> set (unpinnedList pager). pinCount (pages pager ! f) = 0) \<and>
     (\<forall>pn l f. pageTable pager pn = Some (l, f) \<longrightarrow>
        pagenum (pages pager ! f) = pn \<and>
        (l = UnpinnedList \<and> f \<in> set (unpinnedList pager) \<or>
         l = PinnedList \<and> f \<in> set (pinnedList pager)))"

text \<open>The number of frames on the three lists.\<close>

definition cap :: "Pager \<Rightarrow> nat" where
  "cap pager = length (freeList pager) + length (unpinnedList pager) + length (pinnedList pager)"

text \<open>
  What \<open>NewPage\<close> hands to \<open>GetPage\<close>: a page bound to the page number, with pin count 1,
  that is on no list and that no entry of the page table names.
\<close>

definition fresh_frame :: "Pager \<Rightarrow> nat \<Rightarrow> int \<Rightarrow> bool" where
  "fresh_frame pager f pn \<longleftrightarrow>
     pager_inv pager \<and> f < length (pages pager) \<and>
     f \<notin> set (freeList pager @ unpinnedList pager @ pinnedList pager) \<and>
     pageTable pager pn = None \<and>
     pinCount (pages pager ! f) = 1 \<and> pagenum (pages pager ! f) = pn"

section \<open>Extendible hash table (pkg/hash/table.go)\<close>

subsection \<open>Hashing\<close>

text \<open>
  \<open>powInt\<close> goes through \<open>math.Pow\<close> on \<open>float64\<close>, which is exact for the powers of two
  that an \<open>int64\<close> holds; the depths of a table stay far below 63, as its directory has
  \<open>2 ^ depth\<close> slots.
\<close>

definition powInt :: "nat \<Rightarrow> nat \<Rightarrow> nat" where
  "powInt x y = x ^ y"

text \<open>
  Modelled from the spec: \<open>Hasher\<close>, which is not part of the sources at hand:
  \<open>hash(key, depth) = H(key) mod 2^depth\<close> for a stable 64-bit hash \<open>H\<close>. \<open>H\<close> is a
  parameter of the model.
\<close>

definition Hasher :: "(key \<Rightarrow> nat) \<Rightarrow> key \<Rightarrow> nat \<Rightarrow> nat" where
  "Hasher H k depth = H k mod powInt 2 depth"

subsection \<open>Buckets\<close>

text \<open>
  Modelled from the spec: the bucket (\<open>HashBucket\<close>) and its operations, which are not
  part of the sources at hand. A bucket has its local depth and its entries, in the order
  of their slots; the key count \<open>numKeys\<close> is the length of the list. \<open>Find\<close> scans the
  entries from the first on. \<open>Insert\<close> appends the entry and says whether the bucket is
  full now (\<open>BUCKETSIZE\<close> is a parameter). \<open>Update\<close> replaces the value in place, \<open>Delete\<close>
  takes the entry out; both work on the entry that \<open>Find\<close> meets and fail when there is
  none.
\<close>

record HashBucket =
  depth_b :: nat
  entries :: "HashEntry list"

definition HashBucket_Find :: "HashBucket \<Rightarrow> key \<Rightarrow> HashEntry option" where
  "HashBucket_Find bucket k = find (\<lambda>e. fst e = k) (entries bucket)"

definition HashBucket_Insert :: "nat \<Rightarrow> HashBucket \<Rightarrow> key \<Rightarrow> val \<Rightarrow> bool \<times> HashBucket" where
  "HashBucket_Insert BUCKETSIZE bucket k v =
     (let bucket' = bucket\<lparr>entries := entries bucket @ [(k, v)]\<rparr>
      in (BUCKETSIZE \<le> length (entries bucket'), bucket'))"

fun update_first :: "key \<Rightarrow> val \<Rightarrow> HashEntry list \<Rightarrow> HashEntry list option" where
  "update_first k v [] = None"
| "update_first k v (e # es) =
     (if fst e = k then Some ((k, v) # es)
      else (case update_first k v es of None \<Rightarrow> None | Some es' \<Rightarrow> Some (e # es')))"

fun delete_first :: "key \<Rightarrow> HashEntry list \<Rightarrow> HashEntry list option" where
  "delete_first k [] = None"
| "delete_first k (e # es) =
     (if fst e = k then Some es
      else (case delete_first k es of None \<Rightarrow> None | Some es' \<Rightarrow> Some (e # es')))"

definition HashBucket_Update :: "HashBucket \<Rightarrow> key \<Rightarrow> val \<Rightarrow> error + HashBucket" where
  "HashBucket_Update bucket k v =
     (case update_first k v (entries bucket) of
        None \<Rightarrow> Inl (Error ''not found'')
      | Some es \<Rightarrow> Inr (bucket\<lparr>entries := es\<rparr>))"

definition HashBucket_Delete :: "HashBucket \<Rightarrow> key \<Rightarrow> error + HashBucket" where
  "HashBucket_Delete bucket k =
     (case delete_first k (entries bucket) of
        None \<Rightarrow> Inl (Error ''not found'')
      | Some es \<Rightarrow> Inr (bucket\<lparr>entries := es\<rparr>))"

subsection \<open>The table\<close>

text \<open>
  The table has its global depth and the directory \<open>buckets\<close> of page numbers. The
  buckets live on the pages of the table's pager, one bucket per page; \<open>store\<close> is the
  bucket on each page, by page number (a new bucket gets the next page number,
  \<open>GetFreePN\<close>). Several slots of the directory can hold the same page number.
\<close>

record HashTable =
  depth :: nat
  buckets :: "nat list"
  store :: "HashBucket list"

definition NewHashTable :: HashTable where
  "NewHashTable =
     \<lparr>depth = 2, buckets = [0, 1, 2, 3],
      store = replicate 4 \<lparr>depth_b = 2, entries = []\<rparr>\<rparr>"

text \<open>
  Modelled from the spec: \<open>GetAndLockBucket\<close>, which is not part of the sources at hand,
  gets the page of the bucket of a slot from the pager. The model returns the page number
  and has an error where there is no such slot or no such page.
\<close>

definition GetAndLockBucket :: "HashTable \<Rightarrow> nat \<Rightarrow> error + nat" where
  "GetAndLockBucket table hash =
     (if hash < length (buckets table) \<and> buckets table ! hash < length (store table)
      then Inr (buckets table ! hash)
      else Inl (Error ''no such bucket''))"

definition HashTable_Find :: "(key \<Rightarrow> nat) \<Rightarrow> HashTable \<Rightarrow> key \<Rightarrow> error + HashEntry" where
  "HashTable_Find H table k =
     (let hash = Hasher H k (depth table) in
      if length (buckets table) \<le> hash then Inl (Error ''not found'')
      else
        (case GetAndLockBucket table hash of
           Inl err \<Rightarrow> Inl err
         | Inr bpn \<Rightarrow>
             (case HashBucket_Find (store table ! bpn) k of
                None \<Rightarrow> Inl (Error ''not found'')
              | Some entry \<Rightarrow> Inr entry)))"

definition ExtendTable :: "HashTable \<Rightarrow> HashTable" where
  "ExtendTable table = table\<lparr>depth := depth table + 1, buckets := buckets table @ buckets table\<rparr>"

subsection \<open>Split\<close>

text \<open>
  The loop of \<open>Split\<close> over \<open>tmpEntries\<close>: an entry whose hash at the new local depth
  is \<open>newHash\<close> is written to the next slot of the new bucket, any other to the next slot of
  the old one. \<open>oldEs\<close> and \<open>newEs\<close> are the slots written so far (\<open>oldNKeys\<close> and \<open>newNKeys\<close>
  are their lengths).
\<close>

fun split_entries ::
  "(key \<Rightarrow> nat) \<Rightarrow> nat \<Rightarrow> nat \<Rightarrow> HashEntry list \<Rightarrow> HashEntry list \<Rightarrow> HashEntry list
   \<Rightarrow> HashEntry list \<times> HashEntry list" where
  "split_entries H d newHash [] oldEs newEs = (oldEs, newEs)"
| "split_entries H d newHash (entry # tmpEntries) oldEs newEs =
     (if Hasher H (fst entry) d = newHash
      then split_entries H d newHash tmpEntries oldEs (newEs @ [entry])
      else split_entries H d newHash tmpEntries (oldEs @ [entry]) newEs)"

text \<open>
  The loop \<open>for i := newHash; i < powInt(2, table.depth); i += powInt(2, power)\<close> that
  points slots to the new page. Writing to a slot that the directory does not have panics
  in Go: the result is \<open>None\<close>.
\<close>

function redirect_loop :: "nat list \<Rightarrow> nat \<Rightarrow> nat \<Rightarrow> nat \<Rightarrow> nat \<Rightarrow> nat list option" where
  "redirect_loop bs newpn i bound pw =
     (if i < bound
      then (if i < length bs then redirect_loop (bs[i := newpn]) newpn (i + powInt 2 pw) bound pw
            else None)
      else Some bs)"
  by pat_completeness auto
termination
  by (relation "measure (\<lambda>(bs, newpn, i, bound, pw). bound - i)")
     (auto simp: powInt_def intro!: diff_less_mono2)

declare redirect_loop.simps [simp del]

text \<open>
  One level of \<open>Split\<close>, up to the test for a further split. The bucket is named by its
  page number \<open>bpn\<close> (the code holds it by pointer, so it exists). \<open>avail\<close> says whether the
  pager can give a frame for the page of the new bucket; if it cannot, \<open>NewHashBucket\<close>
  fails and \<open>Split\<close> returns its error, after the table has been extended and the local
  depth of the bucket has been raised. The result of a level that completes is the table,
  the page number of the new bucket, \<open>oldHash\<close> and \<open>newHash\<close>.
\<close>

definition Split_once ::
  "(key \<Rightarrow> nat) \<Rightarrow> bool \<Rightarrow> HashTable \<Rightarrow> nat \<Rightarrow> nat
   \<Rightarrow> (error \<times> HashTable) + (HashTable \<times> nat \<times> nat \<times> nat)" where
  "Split_once H avail table bpn hash =
     (if length (store table) \<le> bpn then Inl (Error ''no such bucket'', table)
      else
        (let bucket = store table ! bpn;
             oldHash = hash mod powInt 2 (depth_b bucket);
             newHash = oldHash + powInt 2 (depth_b bucket);
             table1 = (if depth_b bucket = depth table then ExtendTable table else table);
             bucket1 = bucket\<lparr>depth_b := depth_b bucket + 1\<rparr>;
             table2 = table1\<lparr>store := (store table1)[bpn := bucket1]\<rparr>
         in if \<not> avail then Inl (Error ''no page in either list'', table2)
            else
              (let newpn = length (store table2);
                   tmpEntries = entries bucket1;
                   (oldEs, newEs) = split_entries H (depth_b bucket1) newHash tmpEntries [] [];
                   table3 = table2\<lparr>store := (store table2)[bpn := bucket1\<lparr>entries := oldEs\<rparr>]
                                       @ [\<lparr>depth_b = depth_b bucket1, entries = newEs\<rparr>]\<rparr>
               in case redirect_loop (buckets table3) newpn newHash (powInt 2 (depth table3))
                         (depth_b bucket1) of
                    None \<Rightarrow> Inl (Error ''index out of range'', table3)
                  | Some bs \<Rightarrow> Inr (table3\<lparr>buckets := bs\<rparr>, newpn, oldHash, newHash))))"

text \<open>
  \<open>Split\<close> with its recursion. Every level keeps the page of its new bucket pinned until it
  returns, so the nested levels hold one frame more each; \<open>fr\<close> is the number of frames
  that the pager can still give when \<open>Split\<close> is entered.
\<close>

function Split ::
  "(key \<Rightarrow> nat) \<Rightarrow> nat \<Rightarrow> nat \<Rightarrow> HashTable \<Rightarrow> nat \<Rightarrow> nat \<Rightarrow> error option \<times> HashTable" where
  "Split H BUCKETSIZE fr table bpn hash =
     (case Split_once H (0 < fr) table bpn hash of
        Inl (err, table') \<Rightarrow> (Some err, table')
      | Inr (table', newpn, oldHash, newHash) \<Rightarrow>
          if BUCKETSIZE \<le> length (entries (store table' ! bpn))
          then Split H BUCKETSIZE (fr - 1) table' bpn oldHash
          else if BUCKETSIZE \<le> length (entries (store table' ! newpn))
          then Split H BUCKETSIZE (fr - 1) table' newpn newHash
          else (None, table'))"
  by pat_completeness auto
termination
  by (relation "measure (\<lambda>(H, BUCKETSIZE, fr, table, bpn, hash). fr)")
     (auto simp: Split_once_def Let_def split: if_splits)

declare Split.simps [simp del]

subsection \<open>Insert, Update, Delete\<close>

definition HashTable_Insert ::
  "(key \<Rightarrow> nat) \<Rightarrow> nat \<Rightarrow> nat \<Rightarrow> HashTable \<Rightarrow> key \<Rightarrow> val \<Rightarrow> error option \<times> HashTable" where
  "HashTable_Insert H BUCKETSIZE fr table k v =
     (let hash = Hasher H k (depth table) in
      case GetAndLockBucket table hash of
        Inl err \<Rightarrow> (Some err, table)
      | Inr bpn \<Rightarrow>
          (case HashBucket_Insert BUCKETSIZE (store table ! bpn) k v of
             (split, bucket') \<Rightarrow>
               (let table1 = table\<lparr>store := (store table)[bpn := bucket']\<rparr>
                in if \<not> split then (None, table1)
                   else Split H BUCKETSIZE fr table1 bpn hash)))"

definition HashTable_Update ::
  "(key \<Rightarrow> nat) \<Rightarrow> HashTable \<Rightarrow> key \<Rightarrow> val \<Rightarrow> error option \<times> HashTable" where
  "HashTable_Update H table k v =
     (let hash = Hasher H k (depth table) in
      case GetAndLockBucket table hash of
        Inl err \<Rightarrow> (Some err, table)
      | Inr bpn \<Rightarrow>
          (case HashBucket_Update (store table ! bpn) k v of
             Inl err2 \<Rightarrow> (Some err2, table)
           | Inr bucket' \<Rightarrow> (None, table\<lparr>store := (store table)[bpn := bucket']\<rparr>)))"

definition HashTable_Delete ::
  "(key \<Rightarrow> nat) \<Rightarrow> HashTable \<Rightarrow> key \<Rightarrow> error option \<times> HashTable" where
  "HashTable_Delete H table k =
     (let hash = Hasher H k (depth table) in
      case GetAndLockBucket table hash of
        Inl err \<Rightarrow> (Some err, table)
      | Inr bpn \<Rightarrow>
          (case HashBucket_Delete (store table ! bpn) k of
             Inl err2 \<Rightarrow> (Some err2, table)
           | Inr bucket' \<Rightarrow> (None, table\<lparr>store := (store table)[bpn := bucket']\<rparr>)))"

subsection \<open>Invariants and observations of a table\<close>

text \<open>The bucket that slot \<open>i\<close> of the directory points to.\<close>

definition bucket_at :: "HashTable \<Rightarrow> nat \<Rightarrow> HashBucket" where
  "bucket_at table i = store table ! (buckets table ! i)"

text \<open>
  The invariant of the specification: a slot \<open>i\<close> that points to a bucket of local depth
  \<open>d\<close> is congruent modulo \<open>2 ^ d\<close> to the hash at depth \<open>d\<close> of every key in the bucket.
\<close>

definition slot_inv :: "(key \<Rightarrow> nat) \<Rightarrow> HashTable \<Rightarrow> bool" where
  "slot_inv H table \<longleftrightarrow>
     list_all (\<lambda>i.
        list_all (\<lambda>e. i mod 2 ^ depth_b (bucket_at table i) =
                       Hasher H (fst e) (depth_b (bucket_at table i)) mod 2 ^ depth_b (bucket_at table i))
          (entries (bucket_at table i)))
       [0..<length (buckets table)]"

text \<open>
  The shape of the directory: it has \<open>2 ^ depth\<close> slots, every slot holds the number of a
  page whose bucket has a local depth of at most the global depth, and two slots hold the
  same page exactly when they agree modulo \<open>2 ^ d\<close>, \<open>d\<close> the local depth of the bucket.
\<close>

definition dir_inv :: "HashTable \<Rightarrow> bool" where
  "dir_inv table \<longleftrightarrow>
     length (buckets table) = 2 ^ depth table \<and>
     (\<forall>i < 2 ^ depth table.
        buckets table ! i < length (store table) \<and> depth_b (bucket_at table i) \<le> depth table) \<and>
     (\<forall>i < 2 ^ depth table. \<forall>j < 2 ^ depth table.
        (buckets table ! i = buckets table ! j) =
        (i mod 2 ^ depth_b (bucket_at table i) = j mod 2 ^ depth_b (bucket_at table i)))"

text \<open>
  What the table holds for a key: the entries with that key in the bucket of the key's
  slot, in the order of the bucket. \<open>Find\<close> returns the first of them.
\<close>

definition slot_entries :: "(key \<Rightarrow> nat) \<Rightarrow> HashTable \<Rightarrow> key \<Rightarrow> HashEntry list" where
  "slot_entries H table k =
     filter (\<lambda>e. fst e = k) (entries (bucket_at table (Hasher H k (depth table))))"

text \<open>
  What one level of \<open>Split\<close> on the bucket of page \<open>bpn\<close> gives: the new global depth,
  the two buckets, and the directory.
\<close>

definition split_result :: "(key \<Rightarrow> nat) \<Rightarrow> HashTable \<Rightarrow> nat \<Rightarrow> nat \<Rightarrow> HashTable \<Rightarrow> bool" where
  "split_result H table bpn hash table' \<longleftrightarrow>
     (let d = depth_b (store table ! bpn);
          newHash = hash mod 2 ^ d + 2 ^ d;
          es = entries (store table ! bpn)
      in depth table' = (if d = depth table then depth table + 1 else depth table) \<and>
         store table' =
           (store table)[bpn := \<lparr>depth_b = d + 1,
                               entries = filter (\<lambda>e. Hasher H (fst e) (d + 1) \<noteq> newHash) es\<rparr>]
           @ [\<lparr>depth_b = d + 1, entries = filter (\<lambda>e. Hasher H (fst e) (d + 1) = newHash) es\<rparr>] \<and>
         length (buckets table') = 2 ^ depth table' \<and>
         (\<forall>j < 2 ^ depth table'. buckets table' ! j =
            (if j mod 2 ^ (d + 1) = newHash then length (store table)
             else buckets table ! (j mod 2 ^ depth table))))"

subsection \<open>Sequences of operations on a table\<close>

text \<open>
  An operation of a sequence, with the frames that the pager can give to \<open>Split\<close> when the
  operation is an insert.
\<close>

datatype table_op = OpInsert nat key val | OpUpdate key val | OpDelete key

fun apply_op :: "(key \<Rightarrow> nat) \<Rightarrow> nat \<Rightarrow> table_op \<Rightarrow> HashTable \<Rightarrow> error option \<times> HashTable" where
  "apply_op H BUCKETSIZE (OpInsert fr k v) table = HashTable_Insert H BUCKETSIZE fr table k v"
| "apply_op H BUCKETSIZE (OpUpdate k v) table = HashTable_Update H table k v"
| "apply_op H BUCKETSIZE (OpDelete k) table = HashTable_Delete H table k"

text \<open>
  Running a sequence. An \<open>Update\<close> or \<open>Delete\<close> that fails leaves the table as it was and the
  sequence goes on. The run ends with \<open>None\<close> at an \<open>Insert\<close> that fails: the table is
  then in the middle of a split.
\<close>

fun run_ops :: "(key \<Rightarrow> nat) \<Rightarrow> nat \<Rightarrow> table_op list \<Rightarrow> HashTable \<Rightarrow> HashTable option" where
  "run_ops H BUCKETSIZE [] table = Some table"
| "run_ops H BUCKETSIZE (OpInsert fr k v # ops) table =
     (case HashTable_Insert H BUCKETSIZE fr table k v of
        (None, table') \<Rightarrow> run_ops H BUCKETSIZE ops table'
      | (Some err, table') \<Rightarrow> None)"
| "run_ops H BUCKETSIZE (op # ops) table =
     run_ops H BUCKETSIZE ops (snd (apply_op H BUCKETSIZE op table))"

text \<open>An operation that overrides the value of key \<open>k\<close>.\<close>

fun overrides :: "key \<Rightarrow> table_op \<Rightarrow> bool" where
  "overrides k (OpInsert fr k' v) = False"
| "overrides k (OpUpdate k' v) = (k' = k)"
| "overrides k (OpDelete k') = (k' = k)"

subsection \<open>Sequences that go on after a failure\<close>



section \<open>Grace hash join (pkg/query/hash\_join.go)\<close>

text \<open>
  An entry pair is an output of the join: the left and the right entry, as the source
  tables hold them.
\<close>

type_synonym EntryPair = "HashEntry \<times> HashEntry"

definition DEFAULT_FILTER_SIZE :: nat where
  "DEFAULT_FILTER_SIZE = 1024"

text \<open>
  The entry that goes into the temporary index, and back: with \<open>useKey\<close> the entry as it
  is, else with key and value exchanged. The join is on the first component of the
  stored entry, \<open>joinKey\<close> of the source entry.
\<close>

definition orient :: "bool \<Rightarrow> HashEntry \<Rightarrow> HashEntry" where
  "orient useKey e = (if useKey then (fst e, snd e) else (snd e, fst e))"

definition joinKey :: "bool \<Rightarrow> HashEntry \<Rightarrow> int" where
  "joinKey useKey e = (if useKey then fst e else snd e)"

text \<open>
  Modelled from the spec: the source table and its cursor, \<open>hash.OpenTable\<close> on a new
  temporary file and the \<open>Insert\<close> of the index, which hands over to the \<open>Insert\<close> of its
  table; they are not part of the sources at hand. The source table is the list
  of its entries, which the cursor visits one after the other; the temporary index is a
  new hash table. \<open>buildHashIndex\<close> drops what \<open>tempIndex.Insert\<close> returns, so an
  insert that fails does not stop it. \<open>fr\<close> is the number of frames that the pager of
  the temporary index can give to a split.
\<close>

definition buildHashIndex ::
  "(key \<Rightarrow> nat) \<Rightarrow> nat \<Rightarrow> nat \<Rightarrow> HashEntry list \<Rightarrow> bool \<Rightarrow> HashTable" where
  "buildHashIndex H BUCKETSIZE fr sourceTable useKey =
     foldl (\<lambda>tempIndex entry.
              snd (HashTable_Insert H BUCKETSIZE fr tempIndex
                     (fst (orient useKey entry)) (snd (orient useKey entry))))
       NewHashTable sourceTable"

text \<open>The inserts of \<open>buildHashIndex\<close> as a sequence of operations, to say that none has failed.\<close>

definition build_ops :: "nat \<Rightarrow> HashEntry list \<Rightarrow> bool \<Rightarrow> table_op list" where
  "build_ops fr sourceTable useKey =
     map (\<lambda>entry. OpInsert fr (fst (orient useKey entry)) (snd (orient useKey entry))) sourceTable"

text \<open>
  \<open>probeBuckets\<close>. \<open>Select\<close> of a bucket gives its entries. The result is the error, or
  the pairs sent to the channel, in the order of the two loops. (A send fails only when the
  group has been cancelled, which happens when a probe returns an error.)
\<close>

definition probeBuckets ::
  "hasher \<Rightarrow> hasher \<Rightarrow> HashBucket \<Rightarrow> HashBucket \<Rightarrow> bool \<Rightarrow> bool \<Rightarrow> error + EntryPair list" where
  "probeBuckets xx mm lBucket rBucket joinOnLeftKey joinOnRightKey =
     (let entriesInL = entries lBucket;
          entriesInR = entries rBucket
      in if depth_b lBucket \<noteq> depth_b rBucket
         then Inl (Error ''the size of lBucket is not equal with the size of rBucket'')
         else
           (let bf = foldl (BloomFilter_Insert xx mm) (CreateFilter DEFAULT_FILTER_SIZE)
                       (map fst entriesInL)
            in Inr (concat (map (\<lambda>re.
                      if BloomFilter_Contains xx mm bf (fst re)
                      then concat (map (\<lambda>le.
                             if fst le = fst re
                             then [(orient joinOnLeftKey le, orient joinOnRightKey re)]
                             else []) entriesInL)
                      else []) entriesInR))))"

text \<open>The loop of \<open>Join\<close> that makes both tables the same global size.\<close>

function align_depths :: "HashTable \<Rightarrow> HashTable \<Rightarrow> HashTable \<times> HashTable" where
  "align_depths leftHashTable rightHashTable =
     (if depth leftHashTable \<noteq> depth rightHashTable
      then (if depth leftHashTable < depth rightHashTable
            then align_depths (ExtendTable leftHashTable) rightHashTable
            else align_depths leftHashTable (ExtendTable rightHashTable))
      else (leftHashTable, rightHashTable))"
  by pat_completeness auto
termination
  by (relation "measure (\<lambda>(l, r). (depth l - depth r) + (depth r - depth l))")
     (auto simp: ExtendTable_def)

declare align_depths.simps [simp del]

text \<open>
  The loop over the directory: the pairs of page numbers of the same slot, each pair once
  (\<open>seenList\<close>), in the order of their first slot.
\<close>

fun unseen_pairs :: "(nat \<times> nat) list \<Rightarrow> (nat \<times> nat) list \<Rightarrow> (nat \<times> nat) list" where
  "unseen_pairs seenList [] = []"
| "unseen_pairs seenList (bucketPair # rest) =
     (if bucketPair \<in> set seenList then unseen_pairs seenList rest
      else bucketPair # unseen_pairs (bucketPair # seenList) rest)"

text \<open>
  \<open>Join\<close>. The result is the error of \<open>Join\<close> itself, or the results of the probes that it
  has started, one for every pair of buckets. Reading \<open>rightBuckets[i]\<close> beyond the right
  directory panics, and \<open>GetBucketByPN\<close> fails for a page that the pager does not have.
\<close>

definition Join ::
  "hasher \<Rightarrow> hasher \<Rightarrow> (key \<Rightarrow> nat) \<Rightarrow> nat \<Rightarrow> nat \<Rightarrow> HashEntry list \<Rightarrow> HashEntry list \<Rightarrow> bool \<Rightarrow> bool
   \<Rightarrow> error + (error + EntryPair list) list" where
  "Join xx mm H BUCKETSIZE fr leftTable rightTable joinOnLeftKey joinOnRightKey =
     (let leftHashIndex = buildHashIndex H BUCKETSIZE fr leftTable joinOnLeftKey;
          rightHashIndex = buildHashIndex H BUCKETSIZE fr rightTable joinOnRightKey;
          (leftHashTable, rightHashTable) = align_depths leftHashIndex rightHashIndex;
          leftBuckets = buckets leftHashTable;
          rightBuckets = buckets rightHashTable
      in if length rightBuckets < length leftBuckets then Inl (Error ''index out of range'')
         else
           (let bucketPairs = unseen_pairs [] (zip leftBuckets rightBuckets)
            in if list_ex (\<lambda>(lBucketPN, rBucketPN).
                     length (store leftHashTable) \<le> lBucketPN \<or>
                     length (store rightHashTable) \<le> rBucketPN) bucketPairs
               then Inl (Error ''no such bucket'')
               else Inr (map (\<lambda>(lBucketPN, rBucketPN).
                           probeBuckets xx mm (store leftHashTable ! lBucketPN)
                             (store rightHashTable ! rBucketPN) joinOnLeftKey joinOnRightKey)
                         bucketPairs)))"

text \<open>
  The pairs that the probes of a join send to the channel when each of them runs to its
  end, probe after probe (the channel promises no order). A probe that returns an error
  cancels the group, and then the other probes may stop before they have sent all their
  pairs: what the channel gets is a part of this list.
\<close>

definition emitted :: "(error + EntryPair list) list \<Rightarrow> EntryPair list" where
  "emitted probes = concat (map (\<lambda>p. case p of Inl err \<Rightarrow> [] | Inr pairs \<Rightarrow> pairs) probes)"

text \<open>No probe of the join has returned an error.\<close>

definition probes_ok :: "(error + EntryPair list) list \<Rightarrow> bool" where
  "probes_ok probes = list_all (\<lambda>p. case p of Inl err \<Rightarrow> False | Inr pairs \<Rightarrow> True) probes"

chapter \<open>Properties\<close>

subsection \<open>No false negatives\<close>

lemma bitset_Test_Set_same: "bitset_Test (bitset_Set b i) i"
  by (simp add: bitset_Test_def bitset_Set_def nth_append)

lemma bitset_Test_Set_mono: "bitset_Test b j \<Longrightarrow> bitset_Test (bitset_Set b i) j"
  by (auto simp: bitset_Test_def bitset_Set_def nth_append nth_list_update)

lemma size_bf_Insert: "size_bf (BloomFilter_Insert xx mm f k) = size_bf f"
  by (simp add: BloomFilter_Insert_def Let_def)

lemma Contains_after_Insert: "BloomFilter_Contains xx mm (BloomFilter_Insert xx mm f k) k"
  by (simp add: BloomFilter_Contains_def BloomFilter_Insert_def Let_def
      bitset_Test_Set_same bitset_Test_Set_mono)

lemma Contains_Insert_mono:
  "BloomFilter_Contains xx mm f k \<Longrightarrow> BloomFilter_Contains xx mm (BloomFilter_Insert xx mm f k') k"
  by (simp add: BloomFilter_Contains_def BloomFilter_Insert_def Let_def bitset_Test_Set_mono)

lemma Contains_foldl_mono:
  "BloomFilter_Contains xx mm f k \<Longrightarrow>
   BloomFilter_Contains xx mm (foldl (BloomFilter_Insert xx mm) f ks) k"
  by (induction ks arbitrary: f) (simp_all add: Contains_Insert_mono)

text \<open>
  Claim C8. Whatever the width \<open>m\<close> of the filter and whatever the two hash functions,
  after the keys \<open>ks\<close> have been inserted one after the other into a fresh filter,
  \<open>Contains\<close> answers true for each of them: there is no false negative.
\<close>

theorem bloom_no_false_negatives:
  "k \<in> set ks \<Longrightarrow>
   BloomFilter_Contains xx mm (foldl (BloomFilter_Insert xx mm) (CreateFilter m) ks) k"
proof (induction ks arbitrary: m rule: rev_induct)
  case Nil
  then show ?case by simp
next
  case (snoc x xs)
  show ?case
  proof (cases "k = x")
    case True
    then show ?thesis by (simp add: Contains_after_Insert)
  next
    case False
    with snoc.prems have "k \<in> set xs" by simp
    then show ?thesis by (simp add: snoc.IH Contains_Insert_mono)
  qed
qed

theorem bloom_no_false_negatives_witness:
  "(7::int) \<in> set [3, 7, 1031] \<and>
   BloomFilter_Contains (\<lambda>k n. nat k mod n) (\<lambda>k n. nat (5 * k + 2) mod n)
     (foldl (BloomFilter_Insert (\<lambda>k n. nat k mod n) (\<lambda>k n. nat (5 * k + 2) mod n))
        (CreateFilter 1024) [3, 7, 1031]) 7"
proof -
  have h: "(7::int) \<in> set [3, 7, 1031]" by simp
  show ?thesis
    using h bloom_no_false_negatives [OF h, of "\<lambda>k n. nat k mod n" "\<lambda>k n. nat (5 * k + 2) mod n" 1024]
    by simp
qed

section \<open>Recovery manager\<close>

subsection \<open>What Commit leaves behind\<close>

lemma Commit_eq:
  "RecoveryManager_Commit rm c =
     rm\<lparr>txStack := (txStack rm)(c \<mapsto> [commitLog c]), rm_fd := rm_fd rm @ [commitLog c]\<rparr>"
  by (simp add: RecoveryManager_Commit_def writeToBuffer_def txStack_get_def Let_def)

lemma Commit_vs_elided:
  "RecoveryManager_Commit rm c =
     (Commit_elided rm c)\<lparr>txStack := (txStack (Commit_elided rm c))(c \<mapsto> [commitLog c])\<rparr>"
  by (simp add: Commit_eq Commit_elided_def writeToBuffer_def Let_def)



subsection \<open>Rollback\<close>

lemma Undo_inverse_edit:
  "is_editLog l \<Longrightarrow> RecoveryManager_Undo E rm l = inverse_edit E rm l"
  by (cases l; simp) (rename_tac a b c d e f, case_tac c; simp)

lemma inverse_edit_skip: "\<not> is_editLog l \<Longrightarrow> inverse_edit E rm l = (None, rm)"
  by (cases l) simp_all

lemma Rollback_loop_replay:
  "n \<le> length log \<Longrightarrow> Rollback_loop E log n rm = replay_inverse E (rev (take n log)) rm"
proof (induction n arbitrary: rm)
  case 0
  then show ?case by simp
next
  case (Suc n)
  then have n: "n < length log" by simp
  have t: "rev (take (Suc n) log) = log ! n # rev (take n log)"
    using n by (simp add: take_Suc_conv_app_nth)
  show ?case
  proof (cases "is_editLog (log ! n)")
    case True
    then show ?thesis using Suc n
      by (simp add: t Undo_inverse_edit split: prod.splits option.splits)
  next
    case False
    then show ?thesis using Suc n by (simp add: t inverse_edit_skip)
  qed
qed


text \<open>
  Claim C7. When the client has a stack with at least one record, \<open>Rollback\<close> is what
  the specification says: if the first record is not a \<open>START\<close> it fails with the
  malformed-transaction error (\<open>incorrect format\<close>) and changes nothing; otherwise it
  replays the stack from the last record to the first, applying to each edit its inverse
  through the handlers (delete for an insert, update to the old value for an update, insert
  of the old value for a delete), returns the first handler error if there is one, and
  else writes the \<open>COMMIT\<close> record and commits the transaction in the transaction manager.
\<close>

theorem Rollback_lifo_inverse:
  assumes "txStack rm c = Some stack" and "stack \<noteq> []"
  shows "RecoveryManager_Rollback E rm c = Rollback_spec E rm c stack"
proof -
  have loop: "Rollback_loop E stack (length stack) rm = replay_inverse E (rev stack) rm"
    using Rollback_loop_replay [of "length stack" stack E rm] by simp
  have h: "stack ! 0 = hd stack" using assms(2) by (simp add: hd_conv_nth)
  have c: "\<And>r. commit_both E r c =
      (case tm_Commit E (rm_tm r) c of
         (err, t') \<Rightarrow> (err, r\<lparr>rm_tm := t', txStack := (txStack r)(c \<mapsto> [commitLog c]),
                               rm_fd := rm_fd r @ [commitLog c]\<rparr>))"
    by (simp add: commit_both_def Commit_eq Let_def split: prod.splits)
  show ?thesis
    using assms unfolding RecoveryManager_Rollback_def Rollback_spec_def
    by (simp add: loop h c split: prod.splits option.splits)
qed


theorem Rollback_lifo_inverse_witness:
  "txStack \<lparr>rm_d = [''t'' \<mapsto> [1 \<mapsto> 9, 2 \<mapsto> 2]], rm_tm = {7},
      txStack = [7 \<mapsto> [startLog 7, editLog 7 ''t'' INSERT_ACTION 1 0 1,
                          editLog 7 ''t'' INSERT_ACTION 2 0 2, editLog 7 ''t'' UPDATE_ACTION 1 1 9]],
      rm_fd = []\<rparr> 7
     = Some [startLog 7, editLog 7 ''t'' INSERT_ACTION 1 0 1,
             editLog 7 ''t'' INSERT_ACTION 2 0 2, editLog 7 ''t'' UPDATE_ACTION 1 1 9] \<and>
   [startLog 7, editLog 7 ''t'' INSERT_ACTION 1 0 1,
    editLog 7 ''t'' INSERT_ACTION 2 0 2, editLog 7 ''t'' UPDATE_ACTION 1 1 9] \<noteq> [] \<and>
   RecoveryManager_Rollback spec_collaborators
     \<lparr>rm_d = [''t'' \<mapsto> [1 \<mapsto> 9, 2 \<mapsto> 2]], rm_tm = {7},
      txStack = [7 \<mapsto> [startLog 7, editLog 7 ''t'' INSERT_ACTION 1 0 1,
                          editLog 7 ''t'' INSERT_ACTION 2 0 2, editLog 7 ''t'' UPDATE_ACTION 1 1 9]],
      rm_fd = []\<rparr> 7
     = (None,
        \<lparr>rm_d = [''t'' \<mapsto> Map.empty], rm_tm = {},
         txStack = [7 \<mapsto> [commitLog 7]],
         rm_fd = [editLog 7 ''t'' UPDATE_ACTION 1 9 1, editLog 7 ''t'' DELETE_ACTION 2 2 0,
                  editLog 7 ''t'' DELETE_ACTION 1 1 0, commitLog 7]\<rparr>)"
  using Rollback_lifo_inverse [of
     "\<lparr>rm_d = [''t'' \<mapsto> [1 \<mapsto> 9, 2 \<mapsto> 2]], rm_tm = {7},
      txStack = [7 \<mapsto> [startLog 7, editLog 7 ''t'' INSERT_ACTION 1 0 1,
                          editLog 7 ''t'' INSERT_ACTION 2 0 2, editLog 7 ''t'' UPDATE_ACTION 1 1 9]],
      rm_fd = []\<rparr>" 7
     "[startLog 7, editLog 7 ''t'' INSERT_ACTION 1 0 1,
       editLog 7 ''t'' INSERT_ACTION 2 0 2, editLog 7 ''t'' UPDATE_ACTION 1 1 9]"
     spec_collaborators]
  by (simp add: Rollback_spec_def spec_collaborators_def spec_tm_Commit_def db_Find_def
      RecoveryManager_Edit_def writeToBuffer_def txStack_get_def Let_def fun_upd_twist)

text \<open>
  Claim C10. For a client that has no entry in the transaction stack, \<open>Rollback\<close>
  returns nil and leaves the recovery manager as it was: no record is written to the log,
  the database is not changed, and the transaction is not committed in the transaction
  manager.
\<close>

theorem Rollback_without_stack:
  "txStack rm c = None \<Longrightarrow> RecoveryManager_Rollback E rm c = (None, rm)"
  by (simp add: RecoveryManager_Rollback_def)


theorem Rollback_without_stack_witness:
  "txStack (fresh_rm [startLog 3]) 3 = None \<and>
   RecoveryManager_Rollback spec_collaborators (fresh_rm [startLog 3]) 3 = (None, fresh_rm [startLog 3])"
proof -
  have h: "txStack (fresh_rm [startLog 3]) 3 = None" by (simp add: fresh_rm_def)
  show ?thesis using h Rollback_without_stack [OF h, of spec_collaborators] by simp
qed

subsection \<open>The append at the end of Commit\<close>

text \<open>
  Claim C9. The append at the end of \<open>Commit\<close> is not dead. After \<open>Start\<close> and \<open>Commit\<close>
  of client 1, the code as written holds the entry \<open>[COMMIT 1]\<close> for the client, so that a
  following \<open>Checkpoint\<close> writes client 1 as running and a following \<open>Rollback\<close> of
  client 1 fails with \<open>incorrect format\<close>; with the append left out the checkpoint lists
  no client and the rollback returns nil.
\<close>

theorem Commit_append_observable:
  "rm_fd (RecoveryManager_Checkpoint (RecoveryManager_Commit (RecoveryManager_Start (fresh_rm []) 1) 1))
     = [startLog 1, commitLog 1, checkpointLog [1]] \<and>
   rm_fd (RecoveryManager_Checkpoint (Commit_elided (RecoveryManager_Start (fresh_rm []) 1) 1))
     = [startLog 1, commitLog 1, checkpointLog []] \<and>
   fst (RecoveryManager_Rollback spec_collaborators
          (RecoveryManager_Commit (RecoveryManager_Start (fresh_rm []) 1) 1) 1)
     = Some (Error ''incorrect format'') \<and>
   fst (RecoveryManager_Rollback spec_collaborators
          (Commit_elided (RecoveryManager_Start (fresh_rm []) 1) 1) 1)
     = None"
  by (simp add: RecoveryManager_Checkpoint_def Commit_eq Commit_elided_def
      RecoveryManager_Start_def RecoveryManager_Rollback_def fresh_rm_def writeToBuffer_def
      txStack_get_def Let_def)

subsection \<open>Recover\<close>

lemma Recover_redo_step [simp]:
  "ptr < length log \<Longrightarrow>
   Recover_redo E log ptr s = Recover_redo E log (Suc ptr) (redo_step E (log ! ptr) s)"
  by (subst Recover_redo.simps) auto

lemma Recover_redo_done [simp]:
  "length log \<le> ptr \<Longrightarrow> Recover_redo E log ptr s = s"
  by (subst Recover_redo.simps) auto


text \<open>
  A consequence of the entry that \<open>Commit\<close> leaves: a checkpoint taken after the commit
  of client 1 lists it as running, and \<open>Recover\<close>, started on the database as the
  checkpoint saved it, undoes the committed insert.
\<close>

lemma Recover_undoes_committed_after_checkpoint:
  "db_Find (rm_d (snd (RecoveryManager_Recover spec_collaborators
      \<lparr>rm_d = [tn \<mapsto> [5 \<mapsto> 50]], rm_tm = {}, txStack = Map.empty,
       rm_fd = [tableLog ty tn, startLog 1, editLog 1 tn INSERT_ACTION 5 0 50, commitLog 1,
                checkpointLog [1]]\<rparr>))) tn 5 = None"
  by (simp add: RecoveryManager_Recover_def readLogs_def spec_collaborators_def
      spec_tm_Begin_def spec_tm_Commit_def db_Find_def RecoveryManager_Edit_def
      RecoveryManager_Commit_def writeToBuffer_def txStack_get_def Let_def)

text \<open>
  Claim C5 (scenario S5). The log holds the creation of the table, then transaction
  \<open>t1\<close> with \<open>START\<close>, \<open>INSERT(5,50)\<close> and \<open>COMMIT\<close>, then transaction \<open>t2\<close> with
  \<open>START\<close> and \<open>UPDATE(5,99)\<close> and no \<open>COMMIT\<close>. \<open>Recover\<close> on a fresh database returns
  nil and leaves a database in which key 5 has the value 50.
\<close>

theorem recover_S5:
  "fst (RecoveryManager_Recover spec_collaborators
          (fresh_rm [tableLog ty tn, startLog t1, editLog t1 tn INSERT_ACTION 5 0 50, commitLog t1,
                     startLog t2, editLog t2 tn UPDATE_ACTION 5 50 99])) = None \<and>
   db_Find (rm_d (snd (RecoveryManager_Recover spec_collaborators
          (fresh_rm [tableLog ty tn, startLog t1, editLog t1 tn INSERT_ACTION 5 0 50, commitLog t1,
                     startLog t2, editLog t2 tn UPDATE_ACTION 5 50 99])))) tn 5 = Some 50"
  by (simp add: RecoveryManager_Recover_def readLogs_def fresh_rm_def spec_collaborators_def
      spec_tm_Begin_def spec_tm_Commit_def db_Find_def RecoveryManager_Edit_def
      RecoveryManager_Commit_def writeToBuffer_def txStack_get_def Let_def)

section \<open>Pager\<close>

subsection \<open>The invariant holds along every sequence of calls\<close>

lemma PeekHead_Some: "PeekHead l = Some f \<Longrightarrow> l = f # PopSelf l f"
  by (cases l) (simp_all add: PeekHead_def PopSelf_def)

lemma PeekHead_None: "PeekHead l = None \<Longrightarrow> l = []"
  by (cases l) (simp_all add: PeekHead_def)

lemma pager_inv_NewPager: "pager_inv (NewPager n)"
  by (simp add: pager_inv_def NewPager_def)

lemma pager_inv_Open: "pager_inv (snd (Pager_Open ps (NewPager n) len))"
  by (simp add: pager_inv_def NewPager_def Pager_Open_def)

lemma cap_NewPager: "cap (NewPager n) = n"
  by (simp add: cap_def NewPager_def)

lemma cap_Open: "cap (snd (Pager_Open ps (NewPager n) len)) = n"
  by (simp add: cap_def NewPager_def Pager_Open_def)


lemma tableD:
  "pager_inv P \<Longrightarrow> pageTable P pn = Some (l, f) \<Longrightarrow>
   pagenum (pages P ! f) = pn \<and>
   (l = UnpinnedList \<and> f \<in> set (unpinnedList P) \<or> l = PinnedList \<and> f \<in> set (pinnedList P))"
  unfolding pager_inv_def by blast

lemma table_mem:
  "pager_inv P \<Longrightarrow> pageTable P pn = Some (l, f) \<Longrightarrow> f \<in> set (unpinnedList P) \<union> set (pinnedList P)"
  using tableD by blast

lemma table_pagenum:
  "pager_inv P \<Longrightarrow> pageTable P pn = Some (l, f) \<Longrightarrow> pagenum (pages P ! f) = pn"
  using tableD by blast

lemma NewPage_free:
  assumes inv: "pager_inv P" and nt: "pageTable P pn = None" and pk: "PeekHead (freeList P) = Some f"
  shows "fresh_frame (bindPage (P\<lparr>freeList := PopSelf (freeList P) f\<rparr>) f pn) f pn"
proof -
  from PeekHead_Some [OF pk] obtain r where fl: "freeList P = f # r" and r: "PopSelf (freeList P) f = r"
    by metis
  have nf: "\<And>pna l fa. pageTable P pna = Some (l, fa) \<Longrightarrow> fa \<noteq> f"
    using table_mem [OF inv] inv by (auto simp: pager_inv_def fl)
  have "pager_inv (bindPage (P\<lparr>freeList := r\<rparr>) f pn)"
    unfolding pager_inv_def
  proof (intro conjI allI impI)
    fix pna l fa
    assume "pageTable (bindPage (P\<lparr>freeList := r\<rparr>) f pn) pna = Some (l, fa)"
    then have t: "pageTable P pna = Some (l, fa)" by (simp add: bindPage_def)
    with nf have "fa \<noteq> f" by blast
    then show "pagenum (pages (bindPage (P\<lparr>freeList := r\<rparr>) f pn) ! fa) = pna"
      using table_pagenum [OF inv t] by (simp add: bindPage_def)
    show "l = UnpinnedList \<and> fa \<in> set (unpinnedList (bindPage (P\<lparr>freeList := r\<rparr>) f pn)) \<or>
          l = PinnedList \<and> fa \<in> set (pinnedList (bindPage (P\<lparr>freeList := r\<rparr>) f pn))"
      using tableD [OF inv t] by (simp add: bindPage_def)
  qed (use inv in \<open>auto simp: pager_inv_def fl bindPage_def nth_list_update\<close>)
  then show ?thesis
    using inv nt unfolding fresh_frame_def r
    by (auto simp: fl bindPage_def pager_inv_def)
qed

lemma NewPage_evict:
  assumes inv: "pager_inv P" and nt: "pageTable P pn = None" and pk: "PeekHead (unpinnedList P) = Some f"
    and fe: "freeList P = []"
  shows "fresh_frame
     (bindPage ((Pager_FlushPage (P\<lparr>unpinnedList := PopSelf (unpinnedList P) f\<rparr>) f)
        \<lparr>pageTable := (pageTable (Pager_FlushPage (P\<lparr>unpinnedList := PopSelf (unpinnedList P) f\<rparr>) f))
            (pagenum (pages (Pager_FlushPage (P\<lparr>unpinnedList := PopSelf (unpinnedList P) f\<rparr>) f) ! f) := None)\<rparr>) f pn) f pn"
proof -
  define Q where "Q = bindPage ((Pager_FlushPage (P\<lparr>unpinnedList := PopSelf (unpinnedList P) f\<rparr>) f)
        \<lparr>pageTable := (pageTable (Pager_FlushPage (P\<lparr>unpinnedList := PopSelf (unpinnedList P) f\<rparr>) f))
            (pagenum (pages (Pager_FlushPage (P\<lparr>unpinnedList := PopSelf (unpinnedList P) f\<rparr>) f) ! f) := None)\<rparr>) f pn"
  from PeekHead_Some [OF pk] obtain r where fl: "unpinnedList P = f # r" and r: "PopSelf (unpinnedList P) f = r"
    by metis
  have fl': "f < length (pages P)" using inv by (simp add: pager_inv_def fl)
  have Qt: "pageTable Q = (pageTable P)(pagenum (pages P ! f) := None)"
    and Ql: "freeList Q = []" "unpinnedList Q = r" "pinnedList Q = pinnedList P"
    and Qn: "length (pages Q) = length (pages P)"
    and Qf: "pages Q ! f = \<lparr>pagenum = pn, pinCount = 1, dirty = False\<rparr>"
    using fl' unfolding Q_def by (auto simp: bindPage_def Pager_FlushPage_def r fe nth_list_update)
  have Qo: "\<And>g. g \<noteq> f \<Longrightarrow> pinCount (pages Q ! g) = pinCount (pages P ! g) \<and>
                              pagenum (pages Q ! g) = pagenum (pages P ! g)"
    using fl' unfolding Q_def by (auto simp: bindPage_def Pager_FlushPage_def nth_list_update)
  have fnot: "f \<notin> set r" "f \<notin> set (pinnedList P)" using inv by (auto simp: pager_inv_def fl)
  have nf: "\<And>pna l fa. pageTable Q pna = Some (l, fa) \<Longrightarrow> fa \<noteq> f \<and> pageTable P pna = Some (l, fa)"
  proof -
    fix pna l fa assume a: "pageTable Q pna = Some (l, fa)"
    then have ne: "pna \<noteq> pagenum (pages P ! f)" and t: "pageTable P pna = Some (l, fa)"
      unfolding Qt by (auto split: if_splits)
    from table_pagenum [OF inv t] ne have "fa \<noteq> f" by auto
    with t show "fa \<noteq> f \<and> pageTable P pna = Some (l, fa)" by simp
  qed
  have "pager_inv Q"
    unfolding pager_inv_def
  proof (intro conjI allI impI ballI)
    fix pna l fa
    assume a: "pageTable Q pna = Some (l, fa)"
    from nf [OF this] have ne: "fa \<noteq> f" and t: "pageTable P pna = Some (l, fa)" by auto
    show "pagenum (pages Q ! fa) = pna" using Qo [OF ne] table_pagenum [OF inv t] by simp
    show "l = UnpinnedList \<and> fa \<in> set (unpinnedList Q) \<or> l = PinnedList \<and> fa \<in> set (pinnedList Q)"
      using tableD [OF inv t] ne by (auto simp: fl Ql)
  next
    fix g assume g: "g \<in> set (pinnedList Q)"
    then have "g \<noteq> f" using fnot by (auto simp: Ql)
    from Qo [OF this] g show "1 \<le> pinCount (pages Q ! g)"
      using inv by (auto simp: pager_inv_def Ql)
  next
    fix g assume g: "g \<in> set (unpinnedList Q)"
    then have "g \<noteq> f" using fnot by (auto simp: Ql)
    from Qo [OF this] g show "pinCount (pages Q ! g) = 0"
      using inv by (auto simp: pager_inv_def fl Ql)
  next
    show "distinct (freeList Q @ unpinnedList Q @ pinnedList Q)"
      using inv by (auto simp: pager_inv_def fl Ql)
  next
    fix g assume "g \<in> set (freeList Q @ unpinnedList Q @ pinnedList Q)"
    then show "g < length (pages Q)"
      using inv by (auto simp: pager_inv_def fl Ql Qn)
  qed
  moreover have "f \<notin> set (freeList Q @ unpinnedList Q @ pinnedList Q)"
    using fnot by (simp add: Ql)
  moreover have "pageTable Q pn = None" unfolding Qt using nt by simp
  ultimately have "fresh_frame Q f pn"
    unfolding fresh_frame_def using Qn Qf fl' by simp
  then show ?thesis unfolding Q_def .
qed

lemma NewPage_fresh:
  assumes inv: "pager_inv P" and nt: "pageTable P pn = None"
    and np: "Pager_NewPage P pn = (Inr f, P')"
  shows "fresh_frame P' f pn \<and> cap P' + 1 = cap P \<and> maxPageNum P' = maxPageNum P
         \<and> hasFile P' = hasFile P \<and> length (pages P') = length (pages P)"
proof (cases "PeekHead (freeList P)")
  case (Some g)
  with np have f: "g = f" and P': "P' = bindPage (P\<lparr>freeList := PopSelf (freeList P) f\<rparr>) f pn"
    by (auto simp: Pager_NewPage_def Let_def)
  from PeekHead_Some [OF Some [unfolded f]]
  have "length (PopSelf (freeList P) f) + 1 = length (freeList P)"
    by (metis Suc_eq_plus1 length_Cons)
  then show ?thesis
    using NewPage_free [OF inv nt Some [unfolded f]] unfolding P'
    by (simp add: cap_def bindPage_def)
next
  case None
  then have fe: "freeList P = []" by (rule PeekHead_None)
  from np None obtain g where pk: "PeekHead (unpinnedList P) = Some g"
    by (auto simp: Pager_NewPage_def Let_def split: if_splits option.splits)
  with np None have f: "g = f" and hf: "hasFile P"
    by (auto simp: Pager_NewPage_def Let_def split: if_splits)
  from np None pk hf have P': "P' = bindPage ((Pager_FlushPage (P\<lparr>unpinnedList := PopSelf (unpinnedList P) f\<rparr>) f)
        \<lparr>pageTable := (pageTable (Pager_FlushPage (P\<lparr>unpinnedList := PopSelf (unpinnedList P) f\<rparr>) f))
            (pagenum (pages (Pager_FlushPage (P\<lparr>unpinnedList := PopSelf (unpinnedList P) f\<rparr>) f) ! f) := None)\<rparr>) f pn"
    by (auto simp: Pager_NewPage_def Let_def f)
  from PeekHead_Some [OF pk [unfolded f]]
  have "length (PopSelf (unpinnedList P) f) + 1 = length (unpinnedList P)"
    by (metis Suc_eq_plus1 length_Cons)
  then show ?thesis
    using NewPage_evict [OF inv nt pk [unfolded f] fe] unfolding P'
    by (simp add: cap_def bindPage_def Pager_FlushPage_def)
qed

lemma NewPage_fail:
  "Pager_NewPage P pn = (Inl e, P') \<Longrightarrow> P' = P \<and> e \<noteq> read_error"
  by (auto simp: Pager_NewPage_def Let_def read_error_def split: option.splits if_splits)


lemma pager_invI:
  assumes "distinct (freeList P @ unpinnedList P @ pinnedList P)"
    and "\<And>g. g \<in> set (freeList P @ unpinnedList P @ pinnedList P) \<Longrightarrow> g < length (pages P)"
    and "\<And>g. g \<in> set (pinnedList P) \<Longrightarrow> 1 \<le> pinCount (pages P ! g)"
    and "\<And>g. g \<in> set (unpinnedList P) \<Longrightarrow> pinCount (pages P ! g) = 0"
    and "\<And>pn l f. pageTable P pn = Some (l, f) \<Longrightarrow>
           pagenum (pages P ! f) = pn \<and>
           (l = UnpinnedList \<and> f \<in> set (unpinnedList P) \<or> l = PinnedList \<and> f \<in> set (pinnedList P))"
  shows "pager_inv P"
  unfolding pager_inv_def using assms by blast

lemma inv_distinct: "pager_inv P \<Longrightarrow> distinct (freeList P @ unpinnedList P @ pinnedList P)"
  by (simp add: pager_inv_def)

lemma inv_bound:
  "pager_inv P \<Longrightarrow> g \<in> set (freeList P) \<union> set (unpinnedList P) \<union> set (pinnedList P) \<Longrightarrow>
   g < length (pages P)"
  by (auto simp: pager_inv_def)

lemma inv_pinned: "pager_inv P \<Longrightarrow> g \<in> set (pinnedList P) \<Longrightarrow> 1 \<le> pinCount (pages P ! g)"
  by (simp add: pager_inv_def)

lemma inv_unpinned: "pager_inv P \<Longrightarrow> g \<in> set (unpinnedList P) \<Longrightarrow> pinCount (pages P ! g) = 0"
  by (simp add: pager_inv_def)

lemma push_fresh:
  assumes fr: "fresh_frame Q f pn"
    and len: "length ps = length (pages Q)"
    and same: "\<And>g. pinCount (ps ! g) = pinCount (pages Q ! g) \<and> pagenum (ps ! g) = pagenum (pages Q ! g)"
  shows "pager_inv (Q\<lparr>pages := ps, maxPageNum := m, pinnedList := PushTail (pinnedList Q) f,
                      pageTable := (pageTable Q)(pn \<mapsto> (PinnedList, f))\<rparr>)"
proof -
  define R where "R = Q\<lparr>pages := ps, maxPageNum := m, pinnedList := PushTail (pinnedList Q) f,
                      pageTable := (pageTable Q)(pn \<mapsto> (PinnedList, f))\<rparr>"
  have R: "freeList R = freeList Q" "unpinnedList R = unpinnedList Q"
    "pinnedList R = pinnedList Q @ [f]" "pages R = ps"
    "pageTable R = (pageTable Q)(pn \<mapsto> (PinnedList, f))"
    by (simp_all add: R_def PushTail_def)
  from fr have inv: "pager_inv Q" and fl: "f < length (pages Q)"
    and nin: "f \<notin> set (freeList Q)" "f \<notin> set (unpinnedList Q)" "f \<notin> set (pinnedList Q)"
    and pc: "pinCount (pages Q ! f) = 1" and pg: "pagenum (pages Q ! f) = pn"
    by (auto simp: fresh_frame_def)
  have "pager_inv R"
  proof (rule pager_invI)
    show "distinct (freeList R @ unpinnedList R @ pinnedList R)"
      using inv_distinct [OF inv] nin by (auto simp: R)
  next
    fix g assume "g \<in> set (freeList R @ unpinnedList R @ pinnedList R)"
    then show "g < length (pages R)" using inv_bound [OF inv, of g] fl by (auto simp: R len)
  next
    fix g assume "g \<in> set (pinnedList R)"
    then show "1 \<le> pinCount (pages R ! g)" using inv_pinned [OF inv, of g] pc by (auto simp: R same)
  next
    fix g assume "g \<in> set (unpinnedList R)"
    then show "pinCount (pages R ! g) = 0" using inv_unpinned [OF inv, of g] by (auto simp: R same)
  next
    fix pna l fa
    assume a: "pageTable R pna = Some (l, fa)"
    show "pagenum (pages R ! fa) = pna \<and>
       (l = UnpinnedList \<and> fa \<in> set (unpinnedList R) \<or> l = PinnedList \<and> fa \<in> set (pinnedList R))"
    proof (cases "pna = pn")
      case True
      with a pg show ?thesis by (auto simp: R same)
    next
      case False
      with a have "pageTable Q pna = Some (l, fa)" by (simp add: R)
      from tableD [OF inv this] show ?thesis by (auto simp: R same)
    qed
  qed
  then show ?thesis unfolding R_def .
qed

lemma length_remove1_mem: "x \<in> set xs \<Longrightarrow> length (remove1 x xs) + 1 = length xs"
  by (induction xs) auto

lemma GetPage_unpinned:
  assumes inv: "pager_inv P" and t: "pageTable P pn = Some (UnpinnedList, f)"
  shows "pager_inv (Page_Get
           (P\<lparr>unpinnedList := PopSelf (unpinnedList P) f,
              pinnedList := PushTail (pinnedList P) f,
              pageTable := (pageTable P)(pn \<mapsto> (PinnedList, f))\<rparr>) f)
       \<and> cap (Page_Get
           (P\<lparr>unpinnedList := PopSelf (unpinnedList P) f,
              pinnedList := PushTail (pinnedList P) f,
              pageTable := (pageTable P)(pn \<mapsto> (PinnedList, f))\<rparr>) f) = cap P"
proof -
  define R where "R = Page_Get
           (P\<lparr>unpinnedList := PopSelf (unpinnedList P) f,
              pinnedList := PushTail (pinnedList P) f,
              pageTable := (pageTable P)(pn \<mapsto> (PinnedList, f))\<rparr>) f"
  from tableD [OF inv t] have fu: "f \<in> set (unpinnedList P)" and pg: "pagenum (pages P ! f) = pn"
    by auto
  have fl: "f < length (pages P)" using inv_bound [OF inv, of f] fu by simp
  have d: "distinct (freeList P @ unpinnedList P @ pinnedList P)" by (rule inv_distinct [OF inv])
  have R: "freeList R = freeList P" "unpinnedList R = remove1 f (unpinnedList P)"
    "pinnedList R = pinnedList P @ [f]" "length (pages R) = length (pages P)"
    "pageTable R = (pageTable P)(pn \<mapsto> (PinnedList, f))"
    "pinCount (pages R ! f) = pinCount (pages P ! f) + 1"
    "\<And>g. pagenum (pages R ! g) = pagenum (pages P ! g)"
    "\<And>g. g \<noteq> f \<Longrightarrow> pinCount (pages R ! g) = pinCount (pages P ! g)"
    using fl by (simp_all add: R_def PushTail_def PopSelf_def Page_Get_def nth_list_update)
  have "pager_inv R"
  proof (rule pager_invI)
    show "distinct (freeList R @ unpinnedList R @ pinnedList R)"
      using d fu by (auto simp: R set_remove1_eq)
  next
    fix g assume "g \<in> set (freeList R @ unpinnedList R @ pinnedList R)"
    then have "g \<in> set (freeList P) \<union> set (unpinnedList P) \<union> set (pinnedList P)"
      using set_remove1_subset [of f "unpinnedList P"] fu by (auto simp: R)
    then show "g < length (pages R)" using inv_bound [OF inv, of g] by (simp add: R)
  next
    fix g assume g: "g \<in> set (pinnedList R)"
    show "1 \<le> pinCount (pages R ! g)"
    proof (cases "g = f")
      case True
      then show ?thesis using inv_unpinned [OF inv fu] by (simp add: R)
    next
      case False
      with g have "g \<in> set (pinnedList P)" by (simp add: R)
      then show ?thesis using inv_pinned [OF inv, of g] False by (simp add: R)
    qed
  next
    fix g assume g: "g \<in> set (unpinnedList R)"
    then have "g \<noteq> f" "g \<in> set (unpinnedList P)" using d by (auto simp: R set_remove1_eq)
    then show "pinCount (pages R ! g) = 0" using inv_unpinned [OF inv, of g] by (simp add: R)
  next
    fix pna l fa
    assume a: "pageTable R pna = Some (l, fa)"
    show "pagenum (pages R ! fa) = pna \<and>
       (l = UnpinnedList \<and> fa \<in> set (unpinnedList R) \<or> l = PinnedList \<and> fa \<in> set (pinnedList R))"
    proof (cases "pna = pn")
      case True
      with a pg show ?thesis by (auto simp: R)
    next
      case False
      with a have t': "pageTable P pna = Some (l, fa)" by (simp add: R)
      from tableD [OF inv t'] False pg have "fa \<noteq> f" by auto
      with tableD [OF inv t'] d show ?thesis by (auto simp: R set_remove1_eq)
    qed
  qed
  moreover have "cap R = cap P"
    using length_remove1_mem [OF fu] by (simp add: cap_def R)
  ultimately show ?thesis unfolding R_def by simp
qed

lemma GetPage_pinned:
  assumes inv: "pager_inv P" and t: "pageTable P pn = Some (l, f)" and l: "l \<noteq> UnpinnedList"
  shows "pager_inv (Page_Get P f) \<and> cap (Page_Get P f) = cap P"
proof -
  define R where "R = Page_Get P f"
  from tableD [OF inv t] l have fu: "f \<in> set (pinnedList P)" by auto
  have fl: "f < length (pages P)" using inv_bound [OF inv, of f] fu by simp
  have d: "distinct (freeList P @ unpinnedList P @ pinnedList P)" by (rule inv_distinct [OF inv])
  have R: "freeList R = freeList P" "unpinnedList R = unpinnedList P"
    "pinnedList R = pinnedList P" "length (pages R) = length (pages P)"
    "pageTable R = pageTable P"
    "pinCount (pages R ! f) = pinCount (pages P ! f) + 1"
    "\<And>g. pagenum (pages R ! g) = pagenum (pages P ! g)"
    "\<And>g. g \<noteq> f \<Longrightarrow> pinCount (pages R ! g) = pinCount (pages P ! g)"
    using fl by (simp_all add: R_def Page_Get_def nth_list_update)
  have "pager_inv R"
  proof (rule pager_invI)
    show "distinct (freeList R @ unpinnedList R @ pinnedList R)" using d by (simp add: R)
  next
    fix g assume "g \<in> set (freeList R @ unpinnedList R @ pinnedList R)"
    then show "g < length (pages R)" using inv_bound [OF inv, of g] by (auto simp: R)
  next
    fix g assume g: "g \<in> set (pinnedList R)"
    show "1 \<le> pinCount (pages R ! g)"
      using inv_pinned [OF inv, of g] g R(6) R(8) [of g] by (cases "g = f") (auto simp: R(3))
  next
    fix g assume g: "g \<in> set (unpinnedList R)"
    then have "g \<noteq> f" using d fu by (auto simp: R)
    then show "pinCount (pages R ! g) = 0" using inv_unpinned [OF inv, of g] g by (simp add: R)
  next
    fix pna l fa
    assume a: "pageTable R pna = Some (l, fa)"
    then show "pagenum (pages R ! fa) = pna \<and>
       (l = UnpinnedList \<and> fa \<in> set (unpinnedList R) \<or> l = PinnedList \<and> fa \<in> set (pinnedList R))"
      using tableD [OF inv, of pna l fa] by (simp add: R)
  qed
  moreover have "cap R = cap P" by (simp add: cap_def R)
  ultimately show ?thesis unfolding R_def by simp
qed


lemma cap_push:
  "cap (Q\<lparr>pages := ps, maxPageNum := m, pinnedList := PushTail (pinnedList Q) f,
          pageTable := tb\<rparr>) = cap Q + 1"
  by (simp add: cap_def PushTail_def)

lemma GetPage_step:
  assumes inv: "pager_inv P"
  shows "pager_inv (snd (Pager_GetPage io P pn)) \<and>
         (fst (Pager_GetPage io P pn) \<noteq> Inl read_error \<longrightarrow> cap (snd (Pager_GetPage io P pn)) = cap P)"
proof (cases "pn < 0")
  case True
  then show ?thesis using inv by (simp add: Pager_GetPage_def)
next
  case nonneg: False
  show ?thesis
  proof (cases "pageTable P pn")
    case (Some lf)
    obtain l f where lf: "lf = (l, f)" by (cases lf)
    show ?thesis
    proof (cases "l = UnpinnedList")
      case True
      with GetPage_unpinned [OF inv Some [unfolded lf True [symmetric], unfolded True]] nonneg Some lf
      show ?thesis by (simp add: Pager_GetPage_def Let_def)
    next
      case False
      with GetPage_pinned [OF inv Some [unfolded lf] False] nonneg Some lf
      show ?thesis by (simp add: Pager_GetPage_def Let_def)
    qed
  next
    case None
    obtain r P1 where np: "Pager_NewPage P pn = (r, P1)" by (cases "Pager_NewPage P pn")
    show ?thesis
    proof (cases r)
      case (Inl e)
      with NewPage_fail [OF np [unfolded Inl]] nonneg None np inv
      show ?thesis by (simp add: Pager_GetPage_def)
    next
      case (Inr f)
      from NewPage_fresh [OF inv None np [unfolded Inr]]
      have fr: "fresh_frame P1 f pn" and c: "cap P1 + 1 = cap P" by auto
      have inv1: "pager_inv P1" using fr by (simp add: fresh_frame_def)
      have fl: "f < length (pages P1)" using fr by (simp add: fresh_frame_def)
      show ?thesis
      proof (cases "pn < maxPageNum P1")
        case True
        show ?thesis
        proof (cases "Pager_ReadPageFromDisk io P1")
          case rd: None
          have "pager_inv (P1\<lparr>pages := pages P1, maxPageNum := maxPageNum P1,
                 pinnedList := PushTail (pinnedList P1) f,
                 pageTable := (pageTable P1)(pn \<mapsto> (PinnedList, f))\<rparr>)"
            by (rule push_fresh [OF fr]) simp_all
          moreover have "cap (P1\<lparr>pages := pages P1, maxPageNum := maxPageNum P1,
                 pinnedList := PushTail (pinnedList P1) f,
                 pageTable := (pageTable P1)(pn \<mapsto> (PinnedList, f))\<rparr>) = cap P1 + 1"
            by (rule cap_push)
          ultimately show ?thesis
            using nonneg None np Inr True rd c by (simp add: Pager_GetPage_def)
        next
          case (Some e)
          then have "e = read_error" by (simp add: Pager_ReadPageFromDisk_def split: if_splits)
          then show ?thesis
            using nonneg None np Inr True Some inv1 by (simp add: Pager_GetPage_def)
        qed
      next
        case False
        have "pager_inv (P1\<lparr>pages := (pages P1)[f := (pages P1 ! f)\<lparr>dirty := True\<rparr>],
                 maxPageNum := maxPageNum P1 + 1,
                 pinnedList := PushTail (pinnedList P1) f,
                 pageTable := (pageTable P1)(pn \<mapsto> (PinnedList, f))\<rparr>)"
          by (rule push_fresh [OF fr]) (use fl in \<open>auto simp: nth_list_update\<close>)
        moreover have "cap (P1\<lparr>pages := (pages P1)[f := (pages P1 ! f)\<lparr>dirty := True\<rparr>],
                 maxPageNum := maxPageNum P1 + 1,
                 pinnedList := PushTail (pinnedList P1) f,
                 pageTable := (pageTable P1)(pn \<mapsto> (PinnedList, f))\<rparr>) = cap P1 + 1"
          by (rule cap_push)
        ultimately show ?thesis
          using nonneg None np Inr False c by (simp add: Pager_GetPage_def Let_def)
      qed
    qed
  qed
qed

lemma Put_step:
  assumes inv: "pager_inv P" and fu: "f \<in> set (pinnedList P)"
  shows "pager_inv (Page_Put P f) \<and> cap (Page_Put P f) = cap P"
proof -
  have fl: "f < length (pages P)" using inv_bound [OF inv, of f] fu by simp
  have d: "distinct (freeList P @ unpinnedList P @ pinnedList P)" by (rule inv_distinct [OF inv])
  have pc: "1 \<le> pinCount (pages P ! f)" by (rule inv_pinned [OF inv fu])
  show ?thesis
  proof (cases "pinCount (pages P ! f) - 1 = 0")
    case True
    define R where "R = Page_Put P f"
    have R: "freeList R = freeList P" "unpinnedList R = unpinnedList P @ [f]"
      "pinnedList R = remove1 f (pinnedList P)" "length (pages R) = length (pages P)"
      "pageTable R = (pageTable P)(pagenum (pages P ! f) \<mapsto> (UnpinnedList, f))"
      "pinCount (pages R ! f) = 0"
      "\<And>g. pagenum (pages R ! g) = pagenum (pages P ! g)"
      "\<And>g. g \<noteq> f \<Longrightarrow> pinCount (pages R ! g) = pinCount (pages P ! g)"
      using fl True by (simp_all add: R_def Page_Put_def Let_def PushTail_def PopSelf_def nth_list_update)
    have "pager_inv R"
    proof (rule pager_invI)
      show "distinct (freeList R @ unpinnedList R @ pinnedList R)"
        using d fu by (auto simp: R set_remove1_eq)
    next
      fix g assume "g \<in> set (freeList R @ unpinnedList R @ pinnedList R)"
      then have "g \<in> set (freeList P) \<union> set (unpinnedList P) \<union> set (pinnedList P)"
        using set_remove1_subset [of f "pinnedList P"] fu by (auto simp: R)
      then show "g < length (pages R)" using inv_bound [OF inv, of g] by (simp add: R)
    next
      fix g assume g: "g \<in> set (pinnedList R)"
      then have "g \<noteq> f" "g \<in> set (pinnedList P)" using d by (auto simp: R set_remove1_eq)
      then show "1 \<le> pinCount (pages R ! g)" using inv_pinned [OF inv, of g] by (simp add: R)
    next
      fix g assume g: "g \<in> set (unpinnedList R)"
      show "pinCount (pages R ! g) = 0"
      proof (cases "g = f")
        case True
        then show ?thesis by (simp add: R)
      next
        case False
        with g have "g \<in> set (unpinnedList P)" by (simp add: R)
        then show ?thesis using inv_unpinned [OF inv, of g] False by (simp add: R)
      qed
    next
      fix pna l fa
      assume a: "pageTable R pna = Some (l, fa)"
      show "pagenum (pages R ! fa) = pna \<and>
         (l = UnpinnedList \<and> fa \<in> set (unpinnedList R) \<or> l = PinnedList \<and> fa \<in> set (pinnedList R))"
      proof (cases "pna = pagenum (pages P ! f)")
        case True
        with a show ?thesis by (auto simp: R)
      next
        case False
        with a have t': "pageTable P pna = Some (l, fa)" by (simp add: R)
        from tableD [OF inv t'] False have "fa \<noteq> f" by auto
        with tableD [OF inv t'] d show ?thesis by (auto simp: R set_remove1_eq)
      qed
    qed
    moreover have "cap R = cap P"
      using length_remove1_mem [OF fu] by (simp add: cap_def R)
    ultimately show ?thesis unfolding R_def by simp
  next
    case False
    define R where "R = Page_Put P f"
    have R: "freeList R = freeList P" "unpinnedList R = unpinnedList P"
      "pinnedList R = pinnedList P" "length (pages R) = length (pages P)"
      "pageTable R = pageTable P"
      "pinCount (pages R ! f) = pinCount (pages P ! f) - 1"
      "\<And>g. pagenum (pages R ! g) = pagenum (pages P ! g)"
      "\<And>g. g \<noteq> f \<Longrightarrow> pinCount (pages R ! g) = pinCount (pages P ! g)"
      using fl False by (simp_all add: R_def Page_Put_def Let_def nth_list_update)
    have "pager_inv R"
    proof (rule pager_invI)
      show "distinct (freeList R @ unpinnedList R @ pinnedList R)" using d by (simp add: R)
    next
      fix g assume "g \<in> set (freeList R @ unpinnedList R @ pinnedList R)"
      then show "g < length (pages R)" using inv_bound [OF inv, of g] by (auto simp: R)
    next
      fix g assume g: "g \<in> set (pinnedList R)"
      show "1 \<le> pinCount (pages R ! g)"
        using inv_pinned [OF inv, of g] g R(6) R(8) [of g] pc False
        by (cases "g = f") (auto simp: R(3))
    next
      fix g assume g: "g \<in> set (unpinnedList R)"
      then have "g \<noteq> f" using d fu by (auto simp: R)
      then show "pinCount (pages R ! g) = 0" using inv_unpinned [OF inv, of g] g by (simp add: R)
    next
      fix pna l fa
      assume a: "pageTable R pna = Some (l, fa)"
      then show "pagenum (pages R ! fa) = pna \<and>
         (l = UnpinnedList \<and> fa \<in> set (unpinnedList R) \<or> l = PinnedList \<and> fa \<in> set (pinnedList R))"
        using tableD [OF inv, of pna l fa] by (simp add: R)
    qed
    moreover have "cap R = cap P" by (simp add: cap_def R)
    ultimately show ?thesis unfolding R_def by simp
  qed
qed

lemma reach_read_ok_inv: "reach_read_ok n P \<Longrightarrow> pager_inv P \<and> cap P = n"
proof (induction rule: reach_read_ok.induct)
  case ok_new
  show ?case by (simp add: pager_inv_NewPager cap_NewPager)
next
  case (ok_open PAGESIZE len)
  show ?case by (simp add: pager_inv_Open cap_Open)
next
  case (ok_get pager io pn)
  then show ?case using GetPage_step [of pager io pn] by simp
next
  case (ok_put pager f)
  then show ?case using Put_step [of pager f] by simp
qed

lemma reach_inv: "reach n P \<Longrightarrow> pager_inv P"
proof (induction rule: reach.induct)
  case reach_new
  show ?case by (rule pager_inv_NewPager)
next
  case (reach_open PAGESIZE len)
  show ?case by (rule pager_inv_Open)
next
  case (reach_get pager io pn)
  then show ?case using GetPage_step [of pager io pn] by simp
next
  case (reach_put pager f)
  then show ?case using Put_step [of pager f] by simp
qed

lemma sum_pins_ge:
  "(\<And>g. g \<in> set xs \<Longrightarrow> 1 \<le> pinCount (ps ! g)) \<Longrightarrow>
   int (length xs) \<le> sum_list (map (\<lambda>f. pinCount (ps ! f)) xs)"
  by (induction xs) (auto simp: add_mono)

lemma sum_pins_zero:
  "(\<And>g. g \<in> set xs \<Longrightarrow> pinCount (ps ! g) = 0) \<Longrightarrow>
   sum_list (map (\<lambda>f. pinCount (ps ! f)) xs) = 0"
  by (induction xs) auto

subsection \<open>Pin counts and capacity\<close>

text \<open>
  Claim C4, as the code has it. After every sequence of \<open>GetPage\<close> and \<open>Put\<close> calls in
  which no \<open>GetPage\<close> fails in \<open>ReadPageFromDisk\<close>, the lengths of the free, the unpinned
  and the pinned list sum to \<open>NUMPAGES\<close>; every page of the pinned list has a pin count of
  at least 1 and every page of the unpinned list has pin count 0, so that the sum of the
  pin counts of the resident pages is at least the length of the pinned list. (The pin
  count counts the holders of a page: the sum exceeds the length as soon as a page is
  held twice.)
\<close>

theorem pager_pins_and_capacity:
  assumes "reach_read_ok NUMPAGES pager"
  shows "length (freeList pager) + length (unpinnedList pager) + length (pinnedList pager) = NUMPAGES \<and>
         (\<forall>f \<in> set (pinnedList pager). 1 \<le> pinCount (pages pager ! f)) \<and>
         (\<forall>f \<in> set (unpinnedList pager). pinCount (pages pager ! f) = 0) \<and>
         int (length (pinnedList pager)) \<le> sumPinCounts pager"
proof -
  from reach_read_ok_inv [OF assms] have inv: "pager_inv pager" and c: "cap pager = NUMPAGES" by auto
  have "int (length (pinnedList pager)) \<le> sumPinCounts pager"
    unfolding sumPinCounts_def
    using sum_pins_ge [of "pinnedList pager" "pages pager"] sum_pins_zero [of "unpinnedList pager" "pages pager"]
      inv_pinned [OF inv] inv_unpinned [OF inv] by simp
  then show ?thesis using c inv_pinned [OF inv] inv_unpinned [OF inv] by (auto simp: cap_def)
qed

lemmas pager_eval =
  Pager_GetPage_def Pager_NewPage_def NewPager_def PeekHead_def PopSelf_def PushTail_def
  bindPage_def Page_Get_def Page_Put_def Pager_FlushPage_def Pager_ReadPageFromDisk_def
  Let_def upt_rec numeral_eq_Suc

text \<open>The state after \<open>GetPage(0)\<close>, \<open>GetPage(0)\<close> on a new pager of three frames.\<close>

lemma GetPage_twice:
  "snd (Pager_GetPage True (snd (Pager_GetPage True (NewPager 3) 0)) 0) =
     \<lparr>hasFile = False, maxPageNum = 1,
      pages = [\<lparr>pagenum = 0, pinCount = 2, dirty = True\<rparr>,
               \<lparr>pagenum = NOPAGE, pinCount = 0, dirty = False\<rparr>,
               \<lparr>pagenum = NOPAGE, pinCount = 0, dirty = False\<rparr>],
      freeList = [1, 2], unpinnedList = [], pinnedList = [0],
      pageTable = [0 \<mapsto> (PinnedList, 0)]\<rparr>"
  by (simp add: pager_eval)

theorem pager_pins_and_capacity_witness:
  "reach_read_ok 3 (snd (Pager_GetPage True (snd (Pager_GetPage True (NewPager 3) 0)) 0)) \<and>
   length (freeList (snd (Pager_GetPage True (snd (Pager_GetPage True (NewPager 3) 0)) 0))) +
   length (unpinnedList (snd (Pager_GetPage True (snd (Pager_GetPage True (NewPager 3) 0)) 0))) +
   length (pinnedList (snd (Pager_GetPage True (snd (Pager_GetPage True (NewPager 3) 0)) 0))) = 3 \<and>
   int (length (pinnedList (snd (Pager_GetPage True (snd (Pager_GetPage True (NewPager 3) 0)) 0))))
     \<le> sumPinCounts (snd (Pager_GetPage True (snd (Pager_GetPage True (NewPager 3) 0)) 0))"
proof -
  have 1: "reach_read_ok 3 (snd (Pager_GetPage True (NewPager 3) 0))"
    by (rule ok_get [OF ok_new])
       (simp add: pager_eval)
  have 2: "reach_read_ok 3 (snd (Pager_GetPage True (snd (Pager_GetPage True (NewPager 3) 0)) 0))"
    by (rule ok_get [OF 1])
       (simp add: pager_eval)
  show ?thesis using 2 pager_pins_and_capacity [OF 2] by simp
qed

text \<open>
  Claim C4 as it is stated fails on \<open>GetPage(0)\<close>, \<open>GetPage(0)\<close>: the page is on the
  pinned list once and its pin count is 2.
\<close>

theorem pin_sum_counterexample:
  "reach 3 (snd (Pager_GetPage True (snd (Pager_GetPage True (NewPager 3) 0)) 0)) \<and>
   sumPinCounts (snd (Pager_GetPage True (snd (Pager_GetPage True (NewPager 3) 0)) 0)) = 2 \<and>
   length (pinnedList (snd (Pager_GetPage True (snd (Pager_GetPage True (NewPager 3) 0)) 0))) = 1"
proof -
  have "reach 3 (snd (Pager_GetPage True (snd (Pager_GetPage True (NewPager 3) 0)) 0))"
    by (intro reach_get reach_new)
  then show ?thesis by (simp add: GetPage_twice sumPinCounts_def)
qed

text \<open>
  A call of \<open>GetPage\<close> that fails in \<open>ReadPageFromDisk\<close> returns after \<open>NewPage\<close> has
  taken the frame from its list and before the frame is pushed on the pinned list: the
  frame is on no list any more. On a pager in memory, \<open>GetPage(1)\<close> makes page 1 the
  first page (\<open>maxPageNum\<close> becomes 1) and \<open>GetPage(0)\<close> then tries to read page 0 from the
  file that is not there.
\<close>

lemma failed_read_loses_frame:
  "reach 3 (snd (Pager_GetPage True (snd (Pager_GetPage True (NewPager 3) 1)) 0)) \<and>
   fst (Pager_GetPage True (snd (Pager_GetPage True (NewPager 3) 1)) 0) = Inl read_error \<and>
   cap (snd (Pager_GetPage True (snd (Pager_GetPage True (NewPager 3) 1)) 0)) = 2"
proof -
  have "reach 3 (snd (Pager_GetPage True (snd (Pager_GetPage True (NewPager 3) 1)) 0))"
    by (intro reach_get reach_new)
  then show ?thesis
    by (simp add: pager_eval cap_def)
qed

section \<open>Extendible hash table\<close>

subsection \<open>One level of a split\<close>

lemma split_entries_filter:
  "split_entries H d nh es oldEs newEs =
     (oldEs @ filter (\<lambda>e. Hasher H (fst e) d \<noteq> nh) es,
      newEs @ filter (\<lambda>e. Hasher H (fst e) d = nh) es)"
  by (induction es arbitrary: oldEs newEs) simp_all

lemma redirect_loop_spec:
  "bound \<le> length bs \<Longrightarrow>
   \<exists>bs'. redirect_loop bs newpn i bound pw = Some bs' \<and> length bs' = length bs \<and>
     (\<forall>j < length bs. bs' ! j =
        (if i \<le> j \<and> j < bound \<and> (j - i) mod 2 ^ pw = 0 then newpn else bs ! j))"
proof (induction bs newpn i bound pw rule: redirect_loop.induct)
  case (1 bs newpn i bound pw)
  show ?case
  proof (cases "i < bound")
    case False
    then show ?thesis by (subst redirect_loop.simps) auto
  next
    case True
    with "1.prems" have il: "i < length bs" by simp
    from "1.IH" [OF True il] "1.prems"
    obtain bs' where r: "redirect_loop (bs[i := newpn]) newpn (i + powInt 2 pw) bound pw = Some bs'"
      and l: "length bs' = length bs"
      and n: "\<forall>j < length bs. bs' ! j =
        (if i + powInt 2 pw \<le> j \<and> j < bound \<and> (j - (i + powInt 2 pw)) mod 2 ^ pw = 0 then newpn
         else bs[i := newpn] ! j)"
      by auto
    have "\<forall>j < length bs. bs' ! j =
        (if i \<le> j \<and> j < bound \<and> (j - i) mod 2 ^ pw = 0 then newpn else bs ! j)"
    proof (intro allI impI)
      fix j assume j: "j < length bs"
      show "bs' ! j = (if i \<le> j \<and> j < bound \<and> (j - i) mod 2 ^ pw = 0 then newpn else bs ! j)"
      proof (cases "j = i")
        case True
        then show ?thesis using n j il \<open>i < bound\<close> by (simp add: powInt_def)
      next
        case ne: False
        show ?thesis
        proof (cases "i + 2 ^ pw \<le> j")
          case True
          then have "(j - (i + 2 ^ pw)) mod 2 ^ pw = (j - i) mod 2 ^ pw"
            by (metis add.commute diff_diff_left le_add_diff_inverse2 add_diff_cancel_left' mod_add_self2 diff_add_inverse2 le_diff_conv2 add_leD1 nat_le_linear)
          then show ?thesis using n j True ne by (simp add: powInt_def)
        next
          case False
          have nz: "\<not> (i \<le> j \<and> (j - i) mod 2 ^ pw = 0)"
          proof
            assume a: "i \<le> j \<and> (j - i) mod 2 ^ pw = 0"
            with ne False have "0 < j - i" "j - i < 2 ^ pw" by auto
            then show False using a by simp
          qed
          then have rhs: "(if i \<le> j \<and> j < bound \<and> (j - i) mod 2 ^ pw = 0 then newpn else bs ! j) = bs ! j"
            by presburger
          have "bs' ! j = bs ! j" using n j False ne by (simp add: powInt_def)
          then show ?thesis unfolding rhs .
        qed
      qed
    qed
    then show ?thesis using r l True il by (subst redirect_loop.simps) simp
  qed
qed


lemma stride_mod:
  assumes "nh < (m::nat)"
  shows "(nh \<le> j \<and> (j - nh) mod m = 0) = (j mod m = nh)"
proof
  assume a: "nh \<le> j \<and> (j - nh) mod m = 0"
  then obtain q where "j - nh = m * q" by (auto simp: mod_eq_0_iff_dvd)
  with a have "j = nh + m * q" by simp
  then show "j mod m = nh" using assms by simp
next
  assume a: "j mod m = nh"
  have j: "j = m * (j div m) + j mod m" by simp
  then have "nh \<le> j" using a by (metis le_add2)
  moreover have "j - nh = m * (j div m)" using j a by (metis add_diff_cancel_right')
  ultimately show "nh \<le> j \<and> (j - nh) mod m = 0" by simp
qed

lemma redirect_loop_full:
  assumes "length bs = bound" and "nh < 2 ^ pw"
  shows "\<exists>bs'. redirect_loop bs newpn nh bound pw = Some bs' \<and> length bs' = length bs \<and>
     (\<forall>j < length bs. bs' ! j = (if j mod 2 ^ pw = nh then newpn else bs ! j))"
proof -
  from redirect_loop_spec [of bound bs newpn nh pw] assms(1)
  obtain bs' where r: "redirect_loop bs newpn nh bound pw = Some bs'" and l: "length bs' = length bs"
    and n: "\<forall>j < length bs. bs' ! j =
        (if nh \<le> j \<and> j < bound \<and> (j - nh) mod 2 ^ pw = 0 then newpn else bs ! j)"
    by auto
  have "\<forall>j < length bs. bs' ! j = (if j mod 2 ^ pw = nh then newpn else bs ! j)"
  proof (intro allI impI)
    fix j assume j: "j < length bs"
    have "(nh \<le> j \<and> j < bound \<and> (j - nh) mod 2 ^ pw = 0) = (j mod 2 ^ pw = nh)"
      using stride_mod [OF assms(2), of j] j assms(1) by auto
    then show "bs' ! j = (if j mod 2 ^ pw = nh then newpn else bs ! j)"
      using n j by simp
  qed
  with r l show ?thesis by blast
qed

lemma ExtendTable_nth:
  "length (buckets t) = 2 ^ depth t \<Longrightarrow> j < 2 ^ (depth t + 1) \<Longrightarrow>
   buckets (ExtendTable t) ! j = buckets t ! (j mod 2 ^ depth t)"
  by (auto simp: ExtendTable_def nth_append not_less le_mod_geq)

lemma HashBucket_update_all:
  "(b::HashBucket)\<lparr>depth_b := a, entries := es\<rparr> = \<lparr>depth_b = a, entries = es\<rparr>"
  by (cases b) simp

lemma Split_once_result:
  assumes b: "bpn < length (store t)" and len: "length (buckets t) = 2 ^ depth t"
    and dD: "depth_b (store t ! bpn) \<le> depth t"
  shows "\<exists>t'. Split_once H True t bpn hash =
           Inr (t', length (store t), hash mod 2 ^ depth_b (store t ! bpn),
                hash mod 2 ^ depth_b (store t ! bpn) + 2 ^ depth_b (store t ! bpn)) \<and>
     depth t' = (if depth_b (store t ! bpn) = depth t then depth t + 1 else depth t) \<and>
     store t' =
       (store t)[bpn := \<lparr>depth_b = depth_b (store t ! bpn) + 1,
                          entries = filter (\<lambda>e. Hasher H (fst e) (depth_b (store t ! bpn) + 1) \<noteq>
                              hash mod 2 ^ depth_b (store t ! bpn) + 2 ^ depth_b (store t ! bpn))
                            (entries (store t ! bpn))\<rparr>]
       @ [\<lparr>depth_b = depth_b (store t ! bpn) + 1,
            entries = filter (\<lambda>e. Hasher H (fst e) (depth_b (store t ! bpn) + 1) =
                              hash mod 2 ^ depth_b (store t ! bpn) + 2 ^ depth_b (store t ! bpn))
                            (entries (store t ! bpn))\<rparr>] \<and>
     length (buckets t') = 2 ^ depth t' \<and>
     (\<forall>j < 2 ^ depth t'. buckets t' ! j =
        (if j mod 2 ^ (depth_b (store t ! bpn) + 1) =
            hash mod 2 ^ depth_b (store t ! bpn) + 2 ^ depth_b (store t ! bpn)
         then length (store t) else buckets t ! (j mod 2 ^ depth t)))"
proof -
  define d where "d = depth_b (store t ! bpn)"
  define oldHash where "oldHash = hash mod 2 ^ d"
  define newHash where "newHash = oldHash + 2 ^ d"
  define t1 where "t1 = (if d = depth t then ExtendTable t else t)"
  define D' where "D' = (if d = depth t then depth t + 1 else depth t)"
  have nh: "newHash < 2 ^ (d + 1)" by (simp add: newHash_def oldHash_def)
  have t1: "depth t1 = D'" "store t1 = store t" "length (buckets t1) = 2 ^ D'"
    using len by (auto simp: t1_def D'_def ExtendTable_def)
  have t1n: "\<forall>j < 2 ^ D'. buckets t1 ! j = buckets t ! (j mod 2 ^ depth t)"
    using len ExtendTable_nth [OF len] by (auto simp: t1_def D'_def)
  from redirect_loop_full [OF t1(3) nh, of "length (store t)"]
  obtain bs' where r: "redirect_loop (buckets t1) (length (store t)) newHash (2 ^ D') (d + 1) = Some bs'"
    and l: "length bs' = 2 ^ D'"
    and n: "\<forall>j < 2 ^ D'. bs' ! j = (if j mod 2 ^ (d + 1) = newHash then length (store t) else buckets t1 ! j)"
    using t1(3) by auto
  show ?thesis
    unfolding d_def [symmetric] oldHash_def [symmetric] newHash_def [symmetric] D'_def [symmetric]
    using b r l n t1 t1n
    by (simp add: Split_once_def Let_def split_entries_filter powInt_def HashBucket_update_all
        d_def [symmetric] oldHash_def [symmetric] newHash_def [symmetric] t1_def [symmetric])
qed


lemma Split_once_split_result:
  assumes "bpn < length (store t)" and "length (buckets t) = 2 ^ depth t"
    and "depth_b (store t ! bpn) \<le> depth t"
  shows "\<exists>t'. Split_once H True t bpn hash =
           Inr (t', length (store t), hash mod 2 ^ depth_b (store t ! bpn),
                hash mod 2 ^ depth_b (store t ! bpn) + 2 ^ depth_b (store t ! bpn)) \<and>
         split_result H t bpn hash t'"
  using Split_once_result [OF assms, of H hash] unfolding split_result_def Let_def by blast

lemma mod_pow_le: "d \<le> D \<Longrightarrow> (a::nat) mod 2 ^ D mod 2 ^ d = a mod 2 ^ d"
  by (simp add: mod_mod_cancel le_imp_power_dvd)

lemma mod_pow_Suc_cases:
  "(j::nat) mod 2 ^ (d + 1) = j mod 2 ^ d \<or> j mod 2 ^ (d + 1) = j mod 2 ^ d + 2 ^ d"
  using mod_double_nat [of j "2 ^ d"] by simp

lemma mod_pow_Suc_down: "(j::nat) mod 2 ^ (d + 1) mod 2 ^ d = j mod 2 ^ d"
  using mod_pow_le [of d "d + 1" j] by simp

text \<open>The facts about one level of a split that the invariants need.\<close>

lemma split_step_facts:
  assumes di: "dir_inv t" and sl: "buckets t ! (hash mod 2 ^ depth t) = bpn"
    and sr: "split_result H t bpn hash t'"
    and d_def: "d = depth_b (store t ! bpn)"
    and oh_def: "oh = hash mod 2 ^ d"
    and nh_def: "nh = oh + 2 ^ d"
    and N_def: "N = length (store t)"
  shows "bpn < N" and "d \<le> depth t" and "depth t \<le> depth t'"
    and "d + 1 \<le> depth t'" and "length (buckets t') = 2 ^ depth t'"
    and "\<And>j::nat. j < 2 ^ depth t' \<Longrightarrow> j mod 2 ^ depth t < 2 ^ depth t"
    and "\<And>j. j < 2 ^ depth t' \<Longrightarrow>
           (buckets t ! (j mod 2 ^ depth t) = bpn) = (j mod 2 ^ d = oh)"
    and "\<And>j. j < 2 ^ depth t' \<Longrightarrow> j mod 2 ^ (d + 1) = nh \<Longrightarrow>
           buckets t' ! j = N \<and>
           bucket_at t' j = \<lparr>depth_b = d + 1,
              entries = filter (\<lambda>e. Hasher H (fst e) (d + 1) = nh) (entries (store t ! bpn))\<rparr>"
    and "\<And>j. j < 2 ^ depth t' \<Longrightarrow> j mod 2 ^ (d + 1) = oh \<Longrightarrow>
           buckets t' ! j = bpn \<and>
           bucket_at t' j = \<lparr>depth_b = d + 1,
              entries = filter (\<lambda>e. Hasher H (fst e) (d + 1) \<noteq> nh) (entries (store t ! bpn))\<rparr>"
    and "\<And>j. j < 2 ^ depth t' \<Longrightarrow> j mod 2 ^ d \<noteq> oh \<Longrightarrow>
           buckets t' ! j = buckets t ! (j mod 2 ^ depth t) \<and>
           buckets t' ! j \<noteq> bpn \<and> buckets t' ! j < N \<and>
           bucket_at t' j = bucket_at t (j mod 2 ^ depth t)"
proof -
  let ?D = "depth t" and ?D' = "depth t'"
  let ?s = "hash mod 2 ^ ?D"
  have s: "?s < 2 ^ ?D" by simp
  from di have len: "length (buckets t) = 2 ^ ?D"
    and rng: "\<And>i. i < 2 ^ ?D \<Longrightarrow> buckets t ! i < N \<and> depth_b (bucket_at t i) \<le> ?D"
    and eqv: "\<And>i j. i < 2 ^ ?D \<Longrightarrow> j < 2 ^ ?D \<Longrightarrow>
        (buckets t ! i = buckets t ! j) =
        (i mod 2 ^ depth_b (bucket_at t i) = j mod 2 ^ depth_b (bucket_at t i))"
    by (auto simp: dir_inv_def N_def)
  have bs: "bucket_at t ?s = store t ! bpn" by (simp add: bucket_at_def sl)
  show b: "bpn < N" using rng [OF s] sl by simp
  show dD: "d \<le> ?D" using rng [OF s] bs by (simp add: d_def)
  from sr have D': "?D' = (if d = ?D then ?D + 1 else ?D)"
    and st: "store t' = (store t)[bpn := \<lparr>depth_b = d + 1,
                 entries = filter (\<lambda>e. Hasher H (fst e) (d + 1) \<noteq> nh) (entries (store t ! bpn))\<rparr>]
             @ [\<lparr>depth_b = d + 1,
                 entries = filter (\<lambda>e. Hasher H (fst e) (d + 1) = nh) (entries (store t ! bpn))\<rparr>]"
    and len': "length (buckets t') = 2 ^ ?D'"
    and nth': "\<And>j. j < 2 ^ ?D' \<Longrightarrow> buckets t' ! j =
            (if j mod 2 ^ (d + 1) = nh then N else buckets t ! (j mod 2 ^ ?D))"
    by (simp_all add: split_result_def Let_def d_def oh_def nh_def N_def)
  show DD: "?D \<le> ?D'" using D' by simp
  show "d + 1 \<le> ?D'" using D' dD by auto
  show "length (buckets t') = 2 ^ ?D'" by (rule len')
  show jj: "\<And>j::nat. j < 2 ^ ?D' \<Longrightarrow> j mod 2 ^ ?D < 2 ^ ?D" by simp
  show K: "\<And>j. j < 2 ^ ?D' \<Longrightarrow> (buckets t ! (j mod 2 ^ ?D) = bpn) = (j mod 2 ^ d = oh)"
  proof -
    fix j :: nat assume "j < 2 ^ ?D'"
    have jl: "j mod 2 ^ ?D < 2 ^ ?D" by simp
    have e0: "depth_b (bucket_at t ?s) = d" using bs by (simp add: d_def)
    have e1: "?s mod 2 ^ d = oh" unfolding oh_def by (rule mod_pow_le [OF dD])
    have e2: "j mod 2 ^ ?D mod 2 ^ d = j mod 2 ^ d" by (rule mod_pow_le [OF dD])
    have "(buckets t ! ?s = buckets t ! (j mod 2 ^ ?D)) =
          (?s mod 2 ^ d = j mod 2 ^ ?D mod 2 ^ d)"
      using eqv [OF s jl] unfolding e0 .
    then have "(bpn = buckets t ! (j mod 2 ^ ?D)) = (oh = j mod 2 ^ d)"
      unfolding sl e1 e2 .
    then show "(buckets t ! (j mod 2 ^ ?D) = bpn) = (j mod 2 ^ d = oh)"
      by (simp only: eq_commute)
  qed
  have nhd: "nh mod 2 ^ d = oh" by (simp add: nh_def oh_def)
  have ohlt: "oh < 2 ^ d" by (simp add: oh_def)
  have ne: "oh \<noteq> nh" by (simp add: nh_def)
  show "\<And>j. j < 2 ^ ?D' \<Longrightarrow> j mod 2 ^ (d + 1) = nh \<Longrightarrow>
           buckets t' ! j = N \<and>
           bucket_at t' j = \<lparr>depth_b = d + 1,
              entries = filter (\<lambda>e. Hasher H (fst e) (d + 1) = nh) (entries (store t ! bpn))\<rparr>"
    using nth' st by (simp add: bucket_at_def nth_append N_def)
  show "\<And>j. j < 2 ^ ?D' \<Longrightarrow> j mod 2 ^ (d + 1) = oh \<Longrightarrow>
           buckets t' ! j = bpn \<and>
           bucket_at t' j = \<lparr>depth_b = d + 1,
              entries = filter (\<lambda>e. Hasher H (fst e) (d + 1) \<noteq> nh) (entries (store t ! bpn))\<rparr>"
  proof -
    fix j :: nat assume j: "j < 2 ^ ?D'" and m: "j mod 2 ^ (d + 1) = oh"
    have "j mod 2 ^ d = oh" using mod_pow_Suc_down [of j d] m ohlt by simp
    with K [OF j] have "buckets t ! (j mod 2 ^ ?D) = bpn" by simp
    with nth' [OF j] m ne have "buckets t' ! j = bpn" by simp
    then show "buckets t' ! j = bpn \<and>
           bucket_at t' j = \<lparr>depth_b = d + 1,
              entries = filter (\<lambda>e. Hasher H (fst e) (d + 1) \<noteq> nh) (entries (store t ! bpn))\<rparr>"
      using st b by (simp add: bucket_at_def nth_append N_def)
  qed
  show "\<And>j. j < 2 ^ ?D' \<Longrightarrow> j mod 2 ^ d \<noteq> oh \<Longrightarrow>
           buckets t' ! j = buckets t ! (j mod 2 ^ ?D) \<and>
           buckets t' ! j \<noteq> bpn \<and> buckets t' ! j < N \<and>
           bucket_at t' j = bucket_at t (j mod 2 ^ ?D)"
  proof -
    fix j :: nat assume j: "j < 2 ^ ?D'" and m: "j mod 2 ^ d \<noteq> oh"
    have "j mod 2 ^ (d + 1) \<noteq> nh" using mod_pow_Suc_down [of j d] m nhd by auto
    with nth' [OF j] have e: "buckets t' ! j = buckets t ! (j mod 2 ^ ?D)" by simp
    moreover have nb: "buckets t ! (j mod 2 ^ ?D) \<noteq> bpn" using K [OF j] m by simp
    moreover have lt: "buckets t ! (j mod 2 ^ ?D) < N" using rng [OF jj [OF j]] by simp
    ultimately show "buckets t' ! j = buckets t ! (j mod 2 ^ ?D) \<and>
           buckets t' ! j \<noteq> bpn \<and> buckets t' ! j < N \<and>
           bucket_at t' j = bucket_at t (j mod 2 ^ ?D)"
      using st by (simp add: bucket_at_def nth_append N_def)
  qed
qed



lemma split_step_dir_inv:
  assumes di: "dir_inv t" and sl: "buckets t ! (hash mod 2 ^ depth t) = bpn"
    and sr: "split_result H t bpn hash t'"
  shows "dir_inv t'"
proof -
  define d where "d = depth_b (store t ! bpn)"
  define oh where "oh = hash mod 2 ^ d"
  define nh where "nh = oh + 2 ^ d"
  define N where "N = length (store t)"
  let ?D = "depth t" and ?D' = "depth t'"
  note F = split_step_facts [OF di sl sr d_def oh_def nh_def N_def]
  have b: "bpn < N" and dD: "d \<le> ?D" and DD: "?D \<le> ?D'" and d1: "d + 1 \<le> ?D'"
    and len': "length (buckets t') = 2 ^ ?D'"
    using F(1-5) by auto
  from di have rng: "\<And>i. i < 2 ^ ?D \<Longrightarrow> buckets t ! i < N \<and> depth_b (bucket_at t i) \<le> ?D"
    and eqv: "\<And>i j. i < 2 ^ ?D \<Longrightarrow> j < 2 ^ ?D \<Longrightarrow>
        (buckets t ! i = buckets t ! j) =
        (i mod 2 ^ depth_b (bucket_at t i) = j mod 2 ^ depth_b (bucket_at t i))"
    by (auto simp: dir_inv_def N_def)
  have nhd: "nh mod 2 ^ d = oh" by (simp add: nh_def oh_def)
  have ohlt: "oh < 2 ^ d" by (simp add: oh_def)
  have ne: "oh \<noteq> nh" by (simp add: nh_def)
  have cls: "\<And>j::nat. j mod 2 ^ (d + 1) = nh \<or> j mod 2 ^ (d + 1) = oh \<or> j mod 2 ^ d \<noteq> oh"
    using mod_pow_Suc_cases nh_def by metis
  have c1d: "\<And>j::nat. j mod 2 ^ (d + 1) = nh \<Longrightarrow> j mod 2 ^ d = oh"
    using mod_pow_Suc_down nhd by metis
  have c2d: "\<And>j::nat. j mod 2 ^ (d + 1) = oh \<Longrightarrow> j mod 2 ^ d = oh"
    using mod_pow_Suc_down ohlt by (metis mod_less)
  have st': "length (store t') = N + 1"
    using sr by (simp add: split_result_def Let_def N_def)
  show ?thesis
    unfolding dir_inv_def
  proof (intro conjI allI impI)
    show "length (buckets t') = 2 ^ ?D'" by (rule len')
  next
    fix i :: nat assume i: "i < 2 ^ ?D'"
    show "buckets t' ! i < length (store t')"
      using cls [of i] F(8) [OF i] F(9) [OF i] F(10) [OF i] b st' by auto
    show "depth_b (bucket_at t' i) \<le> ?D'"
    proof -
      have "i mod 2 ^ d \<noteq> oh \<Longrightarrow> depth_b (bucket_at t' i) \<le> ?D'"
        using F(10) [OF i] rng [OF F(6) [OF i]] DD by simp
      then show ?thesis using cls [of i] F(8) [OF i] F(9) [OF i] d1 by auto
    qed
  next
    fix i j :: nat assume i: "i < 2 ^ ?D'" and j: "j < 2 ^ ?D'"
    consider (n) "i mod 2 ^ (d + 1) = nh" | (o) "i mod 2 ^ (d + 1) = oh" | (x) "i mod 2 ^ d \<noteq> oh"
      using cls [of i] by blast
    then show "(buckets t' ! i = buckets t' ! j) =
        (i mod 2 ^ depth_b (bucket_at t' i) = j mod 2 ^ depth_b (bucket_at t' i))"
    proof cases
      case n
      have bi: "buckets t' ! i = N" and di': "depth_b (bucket_at t' i) = d + 1"
        using F(8) [OF i n] by simp_all
      have "(N = buckets t' ! j) = (j mod 2 ^ (d + 1) = nh)"
      proof (cases "j mod 2 ^ (d + 1) = nh")
        case True
        then show ?thesis using F(8) [OF j] by simp
      next
        case False
        have "buckets t' ! j < N"
          using cls [of j] False F(9) [OF j] F(10) [OF j] b by auto
        then show ?thesis using False by simp
      qed
      then show ?thesis unfolding bi di' using n by auto
    next
      case o
      have bi: "buckets t' ! i = bpn" and di': "depth_b (bucket_at t' i) = d + 1"
        using F(9) [OF i o] by simp_all
      have "(bpn = buckets t' ! j) = (j mod 2 ^ (d + 1) = oh)"
      proof (cases "j mod 2 ^ (d + 1) = oh")
        case True
        then show ?thesis using F(9) [OF j] by simp
      next
        case False
        have "buckets t' ! j \<noteq> bpn"
          using cls [of j] False F(8) [OF j] F(10) [OF j] b by auto
        then show ?thesis using False by auto
      qed
      then show ?thesis unfolding bi di' using o by auto
    next
      case x
      let ?ii = "i mod 2 ^ ?D" and ?jj = "j mod 2 ^ ?D"
      have ii: "?ii < 2 ^ ?D" and jj: "?jj < 2 ^ ?D" by simp_all
      have bi: "buckets t' ! i = buckets t ! ?ii" and nb: "buckets t ! ?ii \<noteq> bpn"
        and lt: "buckets t ! ?ii < N" and ba: "bucket_at t' i = bucket_at t ?ii"
        using F(10) [OF i x] by (simp_all add: N_def)
      define dp where "dp = depth_b (bucket_at t ?ii)"
      have dpD: "dp \<le> ?D" using rng [OF ii] by (simp add: dp_def)
      have e: "(buckets t ! ?ii = buckets t ! ?jj) = (i mod 2 ^ dp = j mod 2 ^ dp)"
        using eqv [OF ii jj] mod_pow_le [OF dpD, of i] mod_pow_le [OF dpD, of j]
        by (simp add: dp_def)
      show ?thesis
      proof (cases "j mod 2 ^ d = oh")
        case False
        then show ?thesis using F(10) [OF j False] e bi ba by (simp add: dp_def)
      next
        case True
        then have k: "buckets t ! ?jj = bpn" using F(7) [OF j] by simp
        have "buckets t' ! j = N \<or> buckets t' ! j = bpn"
          using cls [of j] True F(8) [OF j] F(9) [OF j] by auto
        then have "buckets t' ! i \<noteq> buckets t' ! j" using bi nb lt by auto
        moreover have "i mod 2 ^ dp \<noteq> j mod 2 ^ dp" using e k nb by simp
        ultimately show ?thesis using ba by (simp add: dp_def)
      qed
    qed
  qed
qed


lemma Hasher_mod: "Hasher H k x mod 2 ^ x = Hasher H k x"
  by (simp add: Hasher_def powInt_def)

lemma Hasher_less: "Hasher H k x < 2 ^ x"
  by (simp add: Hasher_def powInt_def)

lemma Hasher_down: "x \<le> y \<Longrightarrow> Hasher H k y mod 2 ^ x = Hasher H k x"
  by (simp add: Hasher_def powInt_def mod_pow_le)

lemma slot_inv_iff:
  "slot_inv H table \<longleftrightarrow>
     (\<forall>i < length (buckets table). \<forall>e \<in> set (entries (bucket_at table i)).
        i mod 2 ^ depth_b (bucket_at table i) =
        Hasher H (fst e) (depth_b (bucket_at table i)) mod 2 ^ depth_b (bucket_at table i))"
  by (auto simp: slot_inv_def list_all_iff)

lemma slot_invD:
  "slot_inv H t \<Longrightarrow> i < length (buckets t) \<Longrightarrow> e \<in> set (entries (bucket_at t i)) \<Longrightarrow>
   i mod 2 ^ depth_b (bucket_at t i) = Hasher H (fst e) (depth_b (bucket_at t i))"
  unfolding slot_inv_iff Hasher_mod by blast

lemma split_step_slot_inv:
  assumes di: "dir_inv t" and si: "slot_inv H t"
    and sl: "buckets t ! (hash mod 2 ^ depth t) = bpn"
    and sr: "split_result H t bpn hash t'"
  shows "slot_inv H t'"
proof -
  define d where "d = depth_b (store t ! bpn)"
  define oh where "oh = hash mod 2 ^ d"
  define nh where "nh = oh + 2 ^ d"
  define N where "N = length (store t)"
  let ?D = "depth t" and ?D' = "depth t'"
  let ?s = "hash mod 2 ^ ?D"
  note F = split_step_facts [OF di sl sr d_def oh_def nh_def N_def]
  have dD: "d \<le> ?D" and len': "length (buckets t') = 2 ^ ?D'" using F(2,5) by auto
  from di have len: "length (buckets t) = 2 ^ ?D"
    and rng: "\<And>i. i < 2 ^ ?D \<Longrightarrow> depth_b (bucket_at t i) \<le> ?D"
    by (auto simp: dir_inv_def)
  have cls: "\<And>j::nat. j mod 2 ^ (d + 1) = nh \<or> j mod 2 ^ (d + 1) = oh \<or> j mod 2 ^ d \<noteq> oh"
    using mod_pow_Suc_cases nh_def by metis
  have bs: "bucket_at t ?s = store t ! bpn" by (simp add: bucket_at_def sl)
  have old: "\<And>e. e \<in> set (entries (store t ! bpn)) \<Longrightarrow> Hasher H (fst e) d = oh"
  proof -
    fix e assume "e \<in> set (entries (store t ! bpn))"
    then have "?s mod 2 ^ d = Hasher H (fst e) d"
      using slot_invD [OF si, of ?s e] bs len by (simp add: d_def)
    then show "Hasher H (fst e) d = oh" using mod_pow_le [OF dD, of hash] by (simp add: oh_def)
  qed
  have two: "\<And>e. e \<in> set (entries (store t ! bpn)) \<Longrightarrow>
      Hasher H (fst e) (d + 1) = oh \<or> Hasher H (fst e) (d + 1) = nh"
  proof -
    fix e assume e: "e \<in> set (entries (store t ! bpn))"
    have "Hasher H (fst e) (d + 1) = Hasher H (fst e) d \<or>
          Hasher H (fst e) (d + 1) = Hasher H (fst e) d + 2 ^ d"
      using mod_pow_Suc_cases [of "H (fst e)" d] by (simp add: Hasher_def powInt_def)
    then show "Hasher H (fst e) (d + 1) = oh \<or> Hasher H (fst e) (d + 1) = nh"
      using old [OF e] by (simp add: nh_def)
  qed
  show ?thesis
    unfolding slot_inv_iff Hasher_mod
  proof (intro allI impI ballI)
    fix i e assume i0: "i < length (buckets t')" and e: "e \<in> set (entries (bucket_at t' i))"
    from i0 have i: "i < 2 ^ ?D'" by (simp add: len')
    consider (n) "i mod 2 ^ (d + 1) = nh" | (o) "i mod 2 ^ (d + 1) = oh" | (x) "i mod 2 ^ d \<noteq> oh"
      using cls [of i] by blast
    then show "i mod 2 ^ depth_b (bucket_at t' i) = Hasher H (fst e) (depth_b (bucket_at t' i))"
    proof cases
      case n
      then show ?thesis using F(8) [OF i n] e by simp
    next
      case o
      from F(9) [OF i o] e have "e \<in> set (entries (store t ! bpn))"
        and "Hasher H (fst e) (d + 1) \<noteq> nh" by simp_all
      with two [of e] have "Hasher H (fst e) (d + 1) = oh" by blast
      then show ?thesis using F(9) [OF i o] o by simp
    next
      case x
      let ?ii = "i mod 2 ^ ?D"
      have ii: "?ii < 2 ^ ?D" by simp
      have ba: "bucket_at t' i = bucket_at t ?ii" using F(10) [OF i x] by simp
      have "?ii mod 2 ^ depth_b (bucket_at t ?ii) = Hasher H (fst e) (depth_b (bucket_at t ?ii))"
        using slot_invD [OF si, of ?ii e] e ba len by simp
      then show ?thesis unfolding ba using mod_pow_le [OF rng [OF ii], of i] by simp
    qed
  qed
qed

lemma filter_key_filter:
  "(\<And>e. fst e = k \<Longrightarrow> Q e) \<Longrightarrow> filter (\<lambda>e. fst e = k) (filter Q es) = filter (\<lambda>e. fst e = k) es"
  by (induction es) auto

lemma split_step_slot_entries:
  assumes di: "dir_inv t" and sl: "buckets t ! (hash mod 2 ^ depth t) = bpn"
    and sr: "split_result H t bpn hash t'"
  shows "slot_entries H t' k = slot_entries H t k"
proof -
  define d where "d = depth_b (store t ! bpn)"
  define oh where "oh = hash mod 2 ^ d"
  define nh where "nh = oh + 2 ^ d"
  define N where "N = length (store t)"
  let ?D = "depth t" and ?D' = "depth t'"
  note F = split_step_facts [OF di sl sr d_def oh_def nh_def N_def]
  have DD: "?D \<le> ?D'" and d1: "d + 1 \<le> ?D'" using F(3,4) by auto
  define j where "j = Hasher H k ?D'"
  have j: "j < 2 ^ ?D'" by (simp add: j_def Hasher_less)
  have jj: "j mod 2 ^ ?D = Hasher H k ?D" unfolding j_def by (rule Hasher_down [OF DD])
  have jd: "j mod 2 ^ (d + 1) = Hasher H k (d + 1)" unfolding j_def by (rule Hasher_down [OF d1])
  have nhd: "nh mod 2 ^ d = oh" by (simp add: nh_def oh_def)
  have ohlt: "oh < 2 ^ d" by (simp add: oh_def)
  have ne: "oh \<noteq> nh" by (simp add: nh_def)
  have cls: "j mod 2 ^ (d + 1) = nh \<or> j mod 2 ^ (d + 1) = oh \<or> j mod 2 ^ d \<noteq> oh"
    using mod_pow_Suc_cases nh_def by metis
  have down: "j mod 2 ^ (d + 1) = nh \<or> j mod 2 ^ (d + 1) = oh \<Longrightarrow> j mod 2 ^ d = oh"
    using mod_pow_Suc_down [of j d] nhd ohlt by auto
  have same: "j mod 2 ^ d = oh \<Longrightarrow> bucket_at t (j mod 2 ^ ?D) = store t ! bpn"
    using F(7) [OF j] by (simp add: bucket_at_def)
  consider (n) "j mod 2 ^ (d + 1) = nh" | (o) "j mod 2 ^ (d + 1) = oh" | (x) "j mod 2 ^ d \<noteq> oh"
    using cls by blast
  then have "filter (\<lambda>e. fst e = k) (entries (bucket_at t' j)) =
             filter (\<lambda>e. fst e = k) (entries (bucket_at t (j mod 2 ^ ?D)))"
  proof cases
    case n
    have "\<And>e. fst e = k \<Longrightarrow> Hasher H (fst e) (d + 1) = nh" using n jd by simp
    then have ff: "filter (\<lambda>e. fst e = k) (filter (\<lambda>e. Hasher H (fst e) (d + 1) = nh) (entries (store t ! bpn)))
        = filter (\<lambda>e. fst e = k) (entries (store t ! bpn))"
      by (rule filter_key_filter)
    have "entries (bucket_at t' j) = filter (\<lambda>e. Hasher H (fst e) (d + 1) = nh) (entries (store t ! bpn))"
      using F(8) [OF j n] by simp
    moreover have "bucket_at t (j mod 2 ^ ?D) = store t ! bpn" using same down n by simp
    ultimately show ?thesis using ff by (simp only:)
  next
    case o
    have "\<And>e. fst e = k \<Longrightarrow> Hasher H (fst e) (d + 1) \<noteq> nh" using o jd ne by simp
    then have ff: "filter (\<lambda>e. fst e = k) (filter (\<lambda>e. Hasher H (fst e) (d + 1) \<noteq> nh) (entries (store t ! bpn)))
        = filter (\<lambda>e. fst e = k) (entries (store t ! bpn))"
      by (rule filter_key_filter)
    have "entries (bucket_at t' j) = filter (\<lambda>e. Hasher H (fst e) (d + 1) \<noteq> nh) (entries (store t ! bpn))"
      using F(9) [OF j o] by simp
    moreover have "bucket_at t (j mod 2 ^ ?D) = store t ! bpn" using same down o by simp
    ultimately show ?thesis using ff by (simp only:)
  next
    case x
    then show ?thesis using F(10) [OF j x] by simp
  qed
  then show ?thesis unfolding slot_entries_def j_def [symmetric] jj [symmetric] .
qed

lemma split_step_next:
  assumes di: "dir_inv t" and sl: "buckets t ! (hash mod 2 ^ depth t) = bpn"
    and sr: "split_result H t bpn hash t'"
  shows "buckets t' ! ((hash mod 2 ^ depth_b (store t ! bpn)) mod 2 ^ depth t') = bpn"
    and "buckets t' ! ((hash mod 2 ^ depth_b (store t ! bpn) + 2 ^ depth_b (store t ! bpn))
            mod 2 ^ depth t') = length (store t)"
proof -
  define d where "d = depth_b (store t ! bpn)"
  define oh where "oh = hash mod 2 ^ d"
  define nh where "nh = oh + 2 ^ d"
  define N where "N = length (store t)"
  let ?D' = "depth t'"
  note F = split_step_facts [OF di sl sr d_def oh_def nh_def N_def]
  have d1: "d + 1 \<le> ?D'" using F(4) by auto
  have p: "(2::nat) ^ (d + 1) \<le> 2 ^ ?D'" using d1 by (rule power_increasing) simp
  have "oh < 2 ^ d" by (simp add: oh_def)
  then have ohlt: "oh < 2 ^ (d + 1)" by simp
  have nhlt: "nh < 2 ^ (d + 1)" by (simp add: nh_def oh_def)
  have o: "oh mod 2 ^ ?D' = oh" "oh < 2 ^ ?D'" "oh mod 2 ^ (d + 1) = oh" using ohlt p by auto
  have n: "nh mod 2 ^ ?D' = nh" "nh < 2 ^ ?D'" "nh mod 2 ^ (d + 1) = nh" using nhlt p by auto
  show "buckets t' ! ((hash mod 2 ^ depth_b (store t ! bpn)) mod 2 ^ depth t') = bpn"
    using F(9) [OF o(2) o(3)] o(1) by (simp add: oh_def d_def)
  show "buckets t' ! ((hash mod 2 ^ depth_b (store t ! bpn) + 2 ^ depth_b (store t ! bpn))
            mod 2 ^ depth t') = length (store t)"
    using F(8) [OF n(2) n(3)] n(1) by (simp add: nh_def oh_def d_def N_def)
qed

subsection \<open>Split, Insert, Update and Delete keep the invariants\<close>

lemma Split_once_no_frame: "\<exists>e t1. Split_once H False t bpn hash = Inl (e, t1)"
  by (simp add: Split_once_def Let_def)

lemma dir_inv_slot:
  "dir_inv t \<Longrightarrow> i < 2 ^ depth t \<Longrightarrow>
   buckets t ! i < length (store t) \<and> depth_b (store t ! (buckets t ! i)) \<le> depth t"
  by (simp add: dir_inv_def bucket_at_def)

lemma Split_inv:
  assumes "dir_inv t" and "buckets t ! (hash mod 2 ^ depth t) = bpn"
    and "Split H BS fr t bpn hash = (None, t')"
  shows "dir_inv t' \<and> (slot_inv H t \<longrightarrow> slot_inv H t') \<and>
         (\<forall>k. slot_entries H t' k = slot_entries H t k)"
  using assms
proof (induction fr arbitrary: t bpn hash)
  case 0
  from Split_once_no_frame [of H t bpn hash] "0.prems"(3) show ?case
    by (subst (asm) Split.simps) auto
next
  case (Suc fr)
  note di = Suc.prems(1) and sl = Suc.prems(2)
  have s: "hash mod 2 ^ depth t < 2 ^ depth t" by simp
  from dir_inv_slot [OF di s] sl
  have b: "bpn < length (store t)" and dD: "depth_b (store t ! bpn) \<le> depth t" by auto
  have len: "length (buckets t) = 2 ^ depth t" using di by (simp add: dir_inv_def)
  define oh where "oh = hash mod 2 ^ depth_b (store t ! bpn)"
  define nh where "nh = oh + 2 ^ depth_b (store t ! bpn)"
  from Split_once_split_result [OF b len dD, of H hash]
  obtain t1 where so: "Split_once H True t bpn hash = Inr (t1, length (store t), oh, nh)"
    and sr: "split_result H t bpn hash t1"
    by (auto simp: oh_def nh_def)
  have di1: "dir_inv t1" by (rule split_step_dir_inv [OF di sl sr])
  have si1: "slot_inv H t \<Longrightarrow> slot_inv H t1" by (rule split_step_slot_inv [OF di _ sl sr])
  have se1: "\<And>k. slot_entries H t1 k = slot_entries H t k"
    by (rule split_step_slot_entries [OF di sl sr])
  have n1: "buckets t1 ! (oh mod 2 ^ depth t1) = bpn"
    and n2: "buckets t1 ! (nh mod 2 ^ depth t1) = length (store t)"
    using split_step_next [OF di sl sr] by (simp_all add: oh_def nh_def)
  have unf: "Split H BS (Suc fr) t bpn hash =
      (if BS \<le> length (entries (store t1 ! bpn)) then Split H BS fr t1 bpn oh
       else if BS \<le> length (entries (store t1 ! length (store t))) then Split H BS fr t1 (length (store t)) nh
       else (None, t1))"
    by (subst Split.simps) (simp add: so)
  show ?case
  proof (cases "BS \<le> length (entries (store t1 ! bpn))")
    case True
    with unf Suc.prems(3) have "Split H BS fr t1 bpn oh = (None, t')" by simp
    from Suc.IH [OF di1 n1 this] si1 se1 show ?thesis by simp
  next
    case False
    show ?thesis
    proof (cases "BS \<le> length (entries (store t1 ! length (store t)))")
      case True
      with unf False Suc.prems(3) have "Split H BS fr t1 (length (store t)) nh = (None, t')" by simp
      from Suc.IH [OF di1 n2 this] si1 se1 show ?thesis by simp
    next
      case f2: False
      with unf False Suc.prems(3) have "t' = t1" by simp
      then show ?thesis using di1 si1 se1 by simp
    qed
  qed
qed


text \<open>Changing the entries of one bucket.\<close>

lemma dir_inv_entries:
  assumes di: "dir_inv t" and b: "bpn < length (store t)"
  shows "dir_inv (t\<lparr>store := (store t)[bpn := (store t ! bpn)\<lparr>entries := es\<rparr>]\<rparr>)"
proof -
  have "\<And>i. depth_b (bucket_at (t\<lparr>store := (store t)[bpn := (store t ! bpn)\<lparr>entries := es\<rparr>]\<rparr>) i)
        = depth_b (bucket_at t i)"
    using b by (simp add: bucket_at_def nth_list_update)
  then show ?thesis using di by (simp add: dir_inv_def)
qed

lemma bucket_at_entries:
  assumes b: "bpn < length (store t)"
  shows "bucket_at (t\<lparr>store := (store t)[bpn := (store t ! bpn)\<lparr>entries := es\<rparr>]\<rparr>) i =
     (if buckets t ! i = bpn then (store t ! bpn)\<lparr>entries := es\<rparr> else bucket_at t i)"
  using b by (simp add: bucket_at_def nth_list_update)

lemma slot_inv_entries:
  assumes si: "slot_inv H t" and b: "bpn < length (store t)"
    and new: "\<And>i e. i < length (buckets t) \<Longrightarrow> buckets t ! i = bpn \<Longrightarrow> e \<in> set es \<Longrightarrow>
       i mod 2 ^ depth_b (store t ! bpn) = Hasher H (fst e) (depth_b (store t ! bpn))"
  shows "slot_inv H (t\<lparr>store := (store t)[bpn := (store t ! bpn)\<lparr>entries := es\<rparr>]\<rparr>)"
proof -
  define t1 where "t1 = t\<lparr>store := (store t)[bpn := (store t ! bpn)\<lparr>entries := es\<rparr>]\<rparr>"
  have ba: "\<And>i. bucket_at t1 i =
     (if buckets t ! i = bpn then (store t ! bpn)\<lparr>entries := es\<rparr> else bucket_at t i)"
    unfolding t1_def by (rule bucket_at_entries [OF b])
  have bk: "buckets t1 = buckets t" by (simp add: t1_def)
  have "slot_inv H t1"
    unfolding slot_inv_iff Hasher_mod
  proof (intro allI impI ballI)
    fix i e
    assume i: "i < length (buckets t1)" and e: "e \<in> set (entries (bucket_at t1 i))"
    show "i mod 2 ^ depth_b (bucket_at t1 i) = Hasher H (fst e) (depth_b (bucket_at t1 i))"
    proof (cases "buckets t ! i = bpn")
      case True
      then show ?thesis using new [of i e] i e by (simp add: ba bk)
    next
      case False
      then show ?thesis using slot_invD [OF si, of i e] i e by (simp add: ba bk)
    qed
  qed
  then show ?thesis unfolding t1_def .
qed

lemma slot_entries_entries:
  assumes b: "bpn < length (store t)"
  shows "slot_entries H (t\<lparr>store := (store t)[bpn := (store t ! bpn)\<lparr>entries := es\<rparr>]\<rparr>) k =
     (if buckets t ! Hasher H k (depth t) = bpn then filter (\<lambda>e. fst e = k) es
      else slot_entries H t k)"
  by (simp add: slot_entries_def bucket_at_entries [OF b])

lemma same_bucket_mod:
  assumes di: "dir_inv t" and i: "i < 2 ^ depth t" and j: "j < 2 ^ depth t"
    and e: "buckets t ! i = buckets t ! j"
  shows "i mod 2 ^ depth_b (store t ! (buckets t ! j)) = j mod 2 ^ depth_b (store t ! (buckets t ! j))"
  using di i j e unfolding dir_inv_def bucket_at_def by metis

lemma Insert_inv:
  assumes di: "dir_inv t" and ins: "HashTable_Insert H BS fr t k v = (None, t')"
  shows "dir_inv t' \<and> (slot_inv H t \<longrightarrow> slot_inv H t') \<and>
         slot_entries H t' k = slot_entries H t k @ [(k, v)] \<and>
         (\<forall>k'. k' \<noteq> k \<longrightarrow> slot_entries H t' k' = slot_entries H t k')"
proof -
  define hash where "hash = Hasher H k (depth t)"
  define bpn where "bpn = buckets t ! hash"
  define t1 where "t1 = t\<lparr>store := (store t)[bpn := (store t ! bpn)\<lparr>entries := entries (store t ! bpn) @ [(k, v)]\<rparr>]\<rparr>"
  have h: "hash < 2 ^ depth t" by (simp add: hash_def Hasher_less)
  have len: "length (buckets t) = 2 ^ depth t" using di by (simp add: dir_inv_def)
  from dir_inv_slot [OF di h] have b: "bpn < length (store t)"
    and dD: "depth_b (store t ! bpn) \<le> depth t" by (simp_all add: bpn_def)
  have g: "GetAndLockBucket t hash = Inr bpn" using h len b by (simp add: GetAndLockBucket_def bpn_def)
  have di1: "dir_inv t1" unfolding t1_def by (rule dir_inv_entries [OF di b])
  have si1: "slot_inv H t1" if si: "slot_inv H t"
    unfolding t1_def
  proof (rule slot_inv_entries [OF si b])
    fix i e assume i: "i < length (buckets t)" and ib: "buckets t ! i = bpn"
      and e: "e \<in> set (entries (store t ! bpn) @ [(k, v)])"
    show "i mod 2 ^ depth_b (store t ! bpn) = Hasher H (fst e) (depth_b (store t ! bpn))"
    proof (cases "e \<in> set (entries (store t ! bpn))")
      case True
      then show ?thesis using slot_invD [OF si i, of e] ib by (simp add: bucket_at_def)
    next
      case False
      with e have ek: "fst e = k" by auto
      have "i mod 2 ^ depth_b (store t ! bpn) = hash mod 2 ^ depth_b (store t ! bpn)"
        using same_bucket_mod [OF di _ h, of i] i ib len by (simp add: bpn_def)
      also have "\<dots> = Hasher H k (depth_b (store t ! bpn))"
        unfolding hash_def by (rule Hasher_down [OF dD])
      finally show ?thesis using ek by simp
    qed
  qed
  have se1: "slot_entries H t1 k = slot_entries H t k @ [(k, v)]"
    unfolding t1_def slot_entries_entries [OF b]
    by (simp add: slot_entries_def bucket_at_def hash_def [symmetric] bpn_def [symmetric])
  have se2: "\<And>k'. k' \<noteq> k \<Longrightarrow> slot_entries H t1 k' = slot_entries H t k'"
    unfolding t1_def slot_entries_entries [OF b]
    by (auto simp: slot_entries_def bucket_at_def)
  have unf: "HashTable_Insert H BS fr t k v =
      (if \<not> BS \<le> length (entries (store t ! bpn)) + 1 then (None, t1) else Split H BS fr t1 bpn hash)"
    using g by (simp add: HashTable_Insert_def HashBucket_Insert_def Let_def hash_def [symmetric] t1_def)
  show ?thesis
  proof (cases "BS \<le> length (entries (store t ! bpn)) + 1")
    case False
    with unf ins have "t' = t1" by simp
    then show ?thesis using di1 si1 se1 se2 by simp
  next
    case True
    with unf ins have sp: "Split H BS fr t1 bpn hash = (None, t')" by simp
    have "buckets t1 ! (hash mod 2 ^ depth t1) = bpn" using h by (simp add: t1_def bpn_def)
    from Split_inv [OF di1 this sp] si1 se1 se2 show ?thesis by simp
  qed
qed


lemma update_first_Some:
  "update_first k v es = Some es' \<Longrightarrow>
   map fst es' = map fst es \<and>
   (\<forall>k'. k' \<noteq> k \<longrightarrow> filter (\<lambda>e. fst e = k') es' = filter (\<lambda>e. fst e = k') es) \<and>
   filter (\<lambda>e. fst e = k) es' = (k, v) # tl (filter (\<lambda>e. fst e = k) es)"
  by (induction es arbitrary: es') (auto split: if_splits option.splits)

lemma delete_first_Some:
  "delete_first k es = Some es' \<Longrightarrow>
   set es' \<subseteq> set es \<and>
   (\<forall>k'. k' \<noteq> k \<longrightarrow> filter (\<lambda>e. fst e = k') es' = filter (\<lambda>e. fst e = k') es) \<and>
   filter (\<lambda>e. fst e = k) es' = tl (filter (\<lambda>e. fst e = k) es)"
  by (induction es arbitrary: es') (auto split: if_splits option.splits)

lemma slot_inv_keys:
  assumes si: "slot_inv H t" and b: "bpn < length (store t)"
    and keys: "fst ` set es \<subseteq> fst ` set (entries (store t ! bpn))"
  shows "slot_inv H (t\<lparr>store := (store t)[bpn := (store t ! bpn)\<lparr>entries := es\<rparr>]\<rparr>)"
proof (rule slot_inv_entries [OF si b])
  fix i e assume i: "i < length (buckets t)" and ib: "buckets t ! i = bpn" and e: "e \<in> set es"
  from e keys obtain e0 where e0: "e0 \<in> set (entries (store t ! bpn))" and f: "fst e0 = fst e"
    by (metis imageE image_eqI subsetD)
  from slot_invD [OF si i, of e0] e0 ib f
  show "i mod 2 ^ depth_b (store t ! bpn) = Hasher H (fst e) (depth_b (store t ! bpn))"
    by (simp add: bucket_at_def)
qed

lemma Update_inv:
  assumes di: "dir_inv t"
  shows "dir_inv (snd (HashTable_Update H t k v)) \<and>
         (slot_inv H t \<longrightarrow> slot_inv H (snd (HashTable_Update H t k v))) \<and>
         (\<forall>k'. k' \<noteq> k \<longrightarrow> slot_entries H (snd (HashTable_Update H t k v)) k' = slot_entries H t k')"
proof -
  define hash where "hash = Hasher H k (depth t)"
  define bpn where "bpn = buckets t ! hash"
  have h: "hash < 2 ^ depth t" by (simp add: hash_def Hasher_less)
  have len: "length (buckets t) = 2 ^ depth t" using di by (simp add: dir_inv_def)
  from dir_inv_slot [OF di h] have b: "bpn < length (store t)" by (simp_all add: bpn_def)
  have g: "GetAndLockBucket t hash = Inr bpn" using h len b by (simp add: GetAndLockBucket_def bpn_def)
  show ?thesis
  proof (cases "update_first k v (entries (store t ! bpn))")
    case None
    then have "snd (HashTable_Update H t k v) = t"
      using g by (simp add: HashTable_Update_def HashBucket_Update_def Let_def hash_def [symmetric])
    then show ?thesis using di by simp
  next
    case (Some es')
    then have r: "snd (HashTable_Update H t k v) =
        t\<lparr>store := (store t)[bpn := (store t ! bpn)\<lparr>entries := es'\<rparr>]\<rparr>"
      using g by (simp add: HashTable_Update_def HashBucket_Update_def Let_def hash_def [symmetric])
    from update_first_Some [OF Some] have m: "map fst es' = map fst (entries (store t ! bpn))"
      and o: "\<And>k'. k' \<noteq> k \<Longrightarrow> filter (\<lambda>e. fst e = k') es' = filter (\<lambda>e. fst e = k') (entries (store t ! bpn))"
      by auto
    have keys: "fst ` set es' \<subseteq> fst ` set (entries (store t ! bpn))"
      using m by (metis set_map subset_refl)
    have se: "\<And>k'. k' \<noteq> k \<Longrightarrow>
        slot_entries H (t\<lparr>store := (store t)[bpn := (store t ! bpn)\<lparr>entries := es'\<rparr>]\<rparr>) k' =
        slot_entries H t k'"
    proof -
      fix k' assume ne: "k' \<noteq> k"
      show "slot_entries H (t\<lparr>store := (store t)[bpn := (store t ! bpn)\<lparr>entries := es'\<rparr>]\<rparr>) k' =
        slot_entries H t k'"
      proof (cases "buckets t ! Hasher H k' (depth t) = bpn")
        case True
        then have "slot_entries H t k' = filter (\<lambda>e. fst e = k') (entries (store t ! bpn))"
          by (simp add: slot_entries_def bucket_at_def)
        then show ?thesis using True o [OF ne] by (simp add: slot_entries_entries [OF b])
      next
        case False
        then show ?thesis by (simp add: slot_entries_entries [OF b])
      qed
    qed
    show ?thesis unfolding r
      using dir_inv_entries [OF di b] slot_inv_keys [OF _ b keys] se by blast
  qed
qed

lemma Delete_inv:
  assumes di: "dir_inv t"
  shows "dir_inv (snd (HashTable_Delete H t k)) \<and>
         (slot_inv H t \<longrightarrow> slot_inv H (snd (HashTable_Delete H t k))) \<and>
         (\<forall>k'. k' \<noteq> k \<longrightarrow> slot_entries H (snd (HashTable_Delete H t k)) k' = slot_entries H t k')"
proof -
  define hash where "hash = Hasher H k (depth t)"
  define bpn where "bpn = buckets t ! hash"
  have h: "hash < 2 ^ depth t" by (simp add: hash_def Hasher_less)
  have len: "length (buckets t) = 2 ^ depth t" using di by (simp add: dir_inv_def)
  from dir_inv_slot [OF di h] have b: "bpn < length (store t)" by (simp_all add: bpn_def)
  have g: "GetAndLockBucket t hash = Inr bpn" using h len b by (simp add: GetAndLockBucket_def bpn_def)
  show ?thesis
  proof (cases "delete_first k (entries (store t ! bpn))")
    case None
    then have "snd (HashTable_Delete H t k) = t"
      using g by (simp add: HashTable_Delete_def HashBucket_Delete_def Let_def hash_def [symmetric])
    then show ?thesis using di by simp
  next
    case (Some es')
    then have r: "snd (HashTable_Delete H t k) =
        t\<lparr>store := (store t)[bpn := (store t ! bpn)\<lparr>entries := es'\<rparr>]\<rparr>"
      using g by (simp add: HashTable_Delete_def HashBucket_Delete_def Let_def hash_def [symmetric])
    from delete_first_Some [OF Some] have m: "set es' \<subseteq> set (entries (store t ! bpn))"
      and o: "\<And>k'. k' \<noteq> k \<Longrightarrow> filter (\<lambda>e. fst e = k') es' = filter (\<lambda>e. fst e = k') (entries (store t ! bpn))"
      by auto
    have keys: "fst ` set es' \<subseteq> fst ` set (entries (store t ! bpn))"
      using m by auto
    have se: "\<And>k'. k' \<noteq> k \<Longrightarrow>
        slot_entries H (t\<lparr>store := (store t)[bpn := (store t ! bpn)\<lparr>entries := es'\<rparr>]\<rparr>) k' =
        slot_entries H t k'"
    proof -
      fix k' assume ne: "k' \<noteq> k"
      show "slot_entries H (t\<lparr>store := (store t)[bpn := (store t ! bpn)\<lparr>entries := es'\<rparr>]\<rparr>) k' =
        slot_entries H t k'"
      proof (cases "buckets t ! Hasher H k' (depth t) = bpn")
        case True
        then have "slot_entries H t k' = filter (\<lambda>e. fst e = k') (entries (store t ! bpn))"
          by (simp add: slot_entries_def bucket_at_def)
        then show ?thesis using True o [OF ne] by (simp add: slot_entries_entries [OF b])
      next
        case False
        then show ?thesis by (simp add: slot_entries_entries [OF b])
      qed
    qed
    show ?thesis unfolding r
      using dir_inv_entries [OF di b] slot_inv_keys [OF _ b keys] se by blast
  qed
qed

lemma all_less_4: "(\<forall>i<4. P i) = (P 0 \<and> P 1 \<and> P 2 \<and> P (3::nat))"
proof -
  have "\<And>i::nat. i < 4 \<longleftrightarrow> i = 0 \<or> i = 1 \<or> i = 2 \<or> i = 3" by arith
  then show ?thesis by auto
qed

lemma New_fields:
  "depth NewHashTable = 2" "length (buckets NewHashTable) = 4"
  "length (store NewHashTable) = 4"
  "\<And>i. i < 4 \<Longrightarrow> buckets NewHashTable ! i = i"
  "\<And>i. i < 4 \<Longrightarrow> store NewHashTable ! i = \<lparr>depth_b = 2, entries = []\<rparr>"
proof -
  show "depth NewHashTable = 2" "length (buckets NewHashTable) = 4"
    "length (store NewHashTable) = 4" by (simp_all add: NewHashTable_def)
  fix i :: nat assume i: "i < 4"
  then have c: "i = 0 \<or> i = 1 \<or> i = 2 \<or> i = 3" by arith
  from c show "buckets NewHashTable ! i = i" by (auto simp: NewHashTable_def)
  from i show "store NewHashTable ! i = \<lparr>depth_b = 2, entries = []\<rparr>"
    by (simp add: NewHashTable_def)
qed

lemma dir_inv_New: "dir_inv NewHashTable"
  unfolding dir_inv_def
proof (intro conjI allI impI)
  show "length (buckets NewHashTable) = 2 ^ depth NewHashTable" by (simp add: New_fields)
next
  fix i :: nat assume "i < 2 ^ depth NewHashTable"
  then have i: "i < 4" by (simp add: New_fields)
  show "buckets NewHashTable ! i < length (store NewHashTable)" using i by (simp add: New_fields)
  show "depth_b (bucket_at NewHashTable i) \<le> depth NewHashTable"
    using i by (simp add: New_fields bucket_at_def)
next
  fix i j :: nat assume "i < 2 ^ depth NewHashTable" "j < 2 ^ depth NewHashTable"
  then have i: "i < 4" and j: "j < 4" by (simp_all add: New_fields)
  show "(buckets NewHashTable ! i = buckets NewHashTable ! j) =
        (i mod 2 ^ depth_b (bucket_at NewHashTable i) = j mod 2 ^ depth_b (bucket_at NewHashTable i))"
    using i j by (simp add: New_fields bucket_at_def)
qed

lemma slot_inv_New: "slot_inv H NewHashTable"
  unfolding slot_inv_iff by (simp add: New_fields bucket_at_def)

lemma slot_entries_New: "slot_entries H NewHashTable k = []"
proof -
  have "Hasher H k 2 < 4" using Hasher_less [of H k 2] by simp
  then show ?thesis by (simp add: slot_entries_def New_fields bucket_at_def)
qed

lemma find_filter:
  "find P xs = (case filter P xs of [] \<Rightarrow> None | x # _ \<Rightarrow> Some x)"
  by (induction xs) auto

lemma Find_slot_entries:
  assumes di: "dir_inv t"
  shows "HashTable_Find H t k =
     (case slot_entries H t k of [] \<Rightarrow> Inl (Error ''not found'') | e # _ \<Rightarrow> Inr e)"
proof -
  define hash where "hash = Hasher H k (depth t)"
  have h: "hash < 2 ^ depth t" by (simp add: hash_def Hasher_less)
  have len: "length (buckets t) = 2 ^ depth t" using di by (simp add: dir_inv_def)
  from dir_inv_slot [OF di h] have b: "buckets t ! hash < length (store t)" by simp
  have g: "GetAndLockBucket t hash = Inr (buckets t ! hash)"
    using h len b by (simp add: GetAndLockBucket_def)
  show ?thesis
    using g h len
    by (simp add: HashTable_Find_def Let_def hash_def [symmetric] HashBucket_Find_def find_filter
        slot_entries_def bucket_at_def split: list.splits)
qed

subsection \<open>What every operation keeps, also when it fails\<close>








lemma ExtendTable_bucket_at_len:
  "length (buckets t) = 2 ^ depth t \<Longrightarrow> j < 2 ^ (depth t + 1) \<Longrightarrow>
   bucket_at (ExtendTable t) j = bucket_at t (j mod 2 ^ depth t)"
  using ExtendTable_nth [of t j] by (simp add: bucket_at_def ExtendTable_def)














subsection \<open>Sequences of operations\<close>

lemma run_ops_inv:
  assumes "dir_inv t" and "run_ops H BS ops t = Some t'"
  shows "dir_inv t' \<and> (slot_inv H t \<longrightarrow> slot_inv H t') \<and>
         ((\<forall>op \<in> set ops. \<not> overrides k op) \<longrightarrow>
            (\<exists>ys. slot_entries H t' k = slot_entries H t k @ ys))"
  using assms
proof (induction ops arbitrary: t)
  case Nil
  then show ?case by simp
next
  case (Cons op ops)
  show ?case
  proof (cases op)
    case (OpInsert fr k1 v1)
    with Cons.prems(2) obtain t1 where i: "HashTable_Insert H BS fr t k1 v1 = (None, t1)"
      and r: "run_ops H BS ops t1 = Some t'"
      by (auto split: prod.splits option.splits)
    from Insert_inv [OF Cons.prems(1) i]
    have d1: "dir_inv t1" and s1: "slot_inv H t \<longrightarrow> slot_inv H t1"
      and e1: "\<exists>ys. slot_entries H t1 k = slot_entries H t k @ ys"
      by (cases "k = k1"; auto)+
    from Cons.IH [OF d1 r] s1 e1 OpInsert show ?thesis by auto
  next
    case (OpUpdate k1 v1)
    with Cons.prems(2) have r: "run_ops H BS ops (snd (HashTable_Update H t k1 v1)) = Some t'"
      by simp
    from Update_inv [OF Cons.prems(1), of H k1 v1] Cons.IH [OF _ r] OpUpdate
    show ?thesis by auto
  next
    case (OpDelete k1)
    with Cons.prems(2) have r: "run_ops H BS ops (snd (HashTable_Delete H t k1)) = Some t'"
      by simp
    from Delete_inv [OF Cons.prems(1), of H k1] Cons.IH [OF _ r] OpDelete
    show ?thesis by auto
  qed
qed

subsection \<open>Find after Insert\<close>




subsection \<open>The invariant of the directory\<close>

text \<open>
  Claim C2, as the code has it. In every table reached from the new table (global depth 2)
  by a sequence of \<open>Insert\<close>, \<open>Update\<close> and \<open>Delete\<close> calls in which every \<open>Insert\<close> returns
  nil, every slot \<open>i\<close> that points to a bucket of local depth \<open>d\<close> is congruent modulo
  \<open>2 ^ d\<close> to \<open>hash(k, d)\<close> for every key \<open>k\<close> in the bucket.
\<close>

theorem slot_inv_reachable:
  assumes "run_ops H BUCKETSIZE ops NewHashTable = Some table"
  shows "slot_inv H table"
  using run_ops_inv [OF dir_inv_New assms] slot_inv_New by simp

theorem slot_inv_reachable_witness:
  "run_ops (\<lambda>k. nat k) 4 [OpInsert 8 0 0, OpInsert 8 4 40, OpInsert 8 8 80, OpInsert 8 12 120,
        OpUpdate 4 41, OpDelete 8] NewHashTable
     = Some \<lparr>depth = 3, buckets = [0, 1, 2, 3, 4, 1, 2, 3],
          store = [\<lparr>depth_b = 3, entries = [(0, 0)]\<rparr>,
             \<lparr>depth_b = 2, entries = []\<rparr>, \<lparr>depth_b = 2, entries = []\<rparr>,
             \<lparr>depth_b = 2, entries = []\<rparr>,
             \<lparr>depth_b = 3, entries = [(4, 41), (12, 120)]\<rparr>]\<rparr> \<and>
   slot_inv (\<lambda>k. nat k) \<lparr>depth = 3, buckets = [0, 1, 2, 3, 4, 1, 2, 3],
          store = [\<lparr>depth_b = 3, entries = [(0, 0)]\<rparr>,
             \<lparr>depth_b = 2, entries = []\<rparr>, \<lparr>depth_b = 2, entries = []\<rparr>,
             \<lparr>depth_b = 2, entries = []\<rparr>,
             \<lparr>depth_b = 3, entries = [(4, 41), (12, 120)]\<rparr>]\<rparr>"
proof -
  have r: "run_ops (\<lambda>k. nat k) 4 [OpInsert 8 0 0, OpInsert 8 4 40, OpInsert 8 8 80, OpInsert 8 12 120,
        OpUpdate 4 41, OpDelete 8] NewHashTable
     = Some \<lparr>depth = 3, buckets = [0, 1, 2, 3, 4, 1, 2, 3],
          store = [\<lparr>depth_b = 3, entries = [(0, 0)]\<rparr>,
             \<lparr>depth_b = 2, entries = []\<rparr>, \<lparr>depth_b = 2, entries = []\<rparr>,
             \<lparr>depth_b = 2, entries = []\<rparr>,
             \<lparr>depth_b = 3, entries = [(4, 41), (12, 120)]\<rparr>]\<rparr>"
    by code_simp
  show ?thesis using r slot_inv_reachable [OF r] by simp
qed

text \<open>
  Claim C2 as it is stated fails in the state that a failing \<open>Insert\<close> leaves. With
  \<open>BUCKETSIZE = 2\<close> and a pager that has no frame left for a new page, \<open>Insert(0)\<close> returns
  nil and \<open>Insert(4)\<close> fills the bucket of slot 0; \<open>Split\<close> doubles the directory, raises
  the local depth of the bucket to 3, and returns the error of \<open>NewHashBucket\<close>. Slot 0
  then points to a bucket of local depth 3 that holds key 4, whose hash at depth 3 is 4.
\<close>

theorem failed_Insert_counterexample:
  "fst (HashTable_Insert (\<lambda>k. nat k) 2 0 NewHashTable 0 0) = None \<and>
   HashTable_Insert (\<lambda>k. nat k) 2 0 (snd (HashTable_Insert (\<lambda>k. nat k) 2 0 NewHashTable 0 0)) 4 1
     = (Some (Error ''no page in either list''),
        \<lparr>depth = 3, buckets = [0, 1, 2, 3, 0, 1, 2, 3],
         store = [\<lparr>depth_b = 3, entries = [(0, 0), (4, 1)]\<rparr>,
            \<lparr>depth_b = 2, entries = []\<rparr>, \<lparr>depth_b = 2, entries = []\<rparr>,
            \<lparr>depth_b = 2, entries = []\<rparr>]\<rparr>) \<and>
   \<not> slot_inv (\<lambda>k. nat k)
       \<lparr>depth = 3, buckets = [0, 1, 2, 3, 0, 1, 2, 3],
         store = [\<lparr>depth_b = 3, entries = [(0, 0), (4, 1)]\<rparr>,
            \<lparr>depth_b = 2, entries = []\<rparr>, \<lparr>depth_b = 2, entries = []\<rparr>,
            \<lparr>depth_b = 2, entries = []\<rparr>]\<rparr>"
  by code_simp

subsection \<open>What one level of Split does\<close>

text \<open>
  Claim C3, as the code has it. Let \<open>d\<close> be the local depth of the bucket before the
  split, \<open>oldHash = hash mod 2 ^ d\<close> and \<open>newHash = oldHash + 2 ^ d\<close>. One level of \<open>Split\<close>
  that gets its page makes the new bucket on the next free page, moves to it exactly the
  entries whose \<open>hash(key, d + 1)\<close> is \<open>newHash\<close> and leaves the others, both in their
  order and with local depth \<open>d + 1\<close>; it doubles the directory when \<open>d\<close> is the global
  depth; and it points to the new page exactly the slots \<open>j\<close> with
  \<open>j mod 2 ^ (d + 1) = newHash\<close>, every other slot keeping the page it had (slot \<open>j\<close> of a
  doubled directory had the page of slot \<open>j mod 2 ^ depth\<close>).
\<close>

theorem Split_moves_and_redirects:
  assumes "bpn < length (store table)" and "length (buckets table) = 2 ^ depth table"
    and "depth_b (store table ! bpn) \<le> depth table"
  shows "\<exists>table'. Split_once H True table bpn hash =
           Inr (table', length (store table), hash mod 2 ^ depth_b (store table ! bpn),
                hash mod 2 ^ depth_b (store table ! bpn) + 2 ^ depth_b (store table ! bpn)) \<and>
     depth table' = (if depth_b (store table ! bpn) = depth table then depth table + 1 else depth table) \<and>
     store table' =
       (store table)[bpn := \<lparr>depth_b = depth_b (store table ! bpn) + 1,
                          entries = filter (\<lambda>e. Hasher H (fst e) (depth_b (store table ! bpn) + 1) \<noteq>
                              hash mod 2 ^ depth_b (store table ! bpn) + 2 ^ depth_b (store table ! bpn))
                            (entries (store table ! bpn))\<rparr>]
       @ [\<lparr>depth_b = depth_b (store table ! bpn) + 1,
            entries = filter (\<lambda>e. Hasher H (fst e) (depth_b (store table ! bpn) + 1) =
                              hash mod 2 ^ depth_b (store table ! bpn) + 2 ^ depth_b (store table ! bpn))
                            (entries (store table ! bpn))\<rparr>] \<and>
     length (buckets table') = 2 ^ depth table' \<and>
     (\<forall>j < 2 ^ depth table'. buckets table' ! j =
        (if j mod 2 ^ (depth_b (store table ! bpn) + 1) =
            hash mod 2 ^ depth_b (store table ! bpn) + 2 ^ depth_b (store table ! bpn)
         then length (store table) else buckets table ! (j mod 2 ^ depth table)))"
  by (rule Split_once_result [OF assms])

theorem Split_moves_and_redirects_witness:
  "Split_once (\<lambda>k. nat k) True
     \<lparr>depth = 2, buckets = [0, 1, 2, 3],
        store = [\<lparr>depth_b = 2, entries = [(0, 0), (4, 40), (8, 80)]\<rparr>,
           \<lparr>depth_b = 2, entries = []\<rparr>, \<lparr>depth_b = 2, entries = []\<rparr>,
           \<lparr>depth_b = 2, entries = []\<rparr>]\<rparr> 0 0 =
     Inr (\<lparr>depth = 3, buckets = [0, 1, 2, 3, 4, 1, 2, 3],
           store = [\<lparr>depth_b = 3, entries = [(0, 0), (8, 80)]\<rparr>,
              \<lparr>depth_b = 2, entries = []\<rparr>, \<lparr>depth_b = 2, entries = []\<rparr>,
              \<lparr>depth_b = 2, entries = []\<rparr>,
              \<lparr>depth_b = 3, entries = [(4, 40)]\<rparr>]\<rparr>, 4, 0, 4)"
proof -
  let ?T = "\<lparr>depth = 2, buckets = [0, 1, 2, 3],
        store = [\<lparr>depth_b = 2, entries = [(0, 0), (4, 40), (8, 80)]\<rparr>,
           \<lparr>depth_b = 2, entries = []\<rparr>, \<lparr>depth_b = 2, entries = []\<rparr>,
           \<lparr>depth_b = 2, entries = []\<rparr>]\<rparr>"
  have h: "0 < length (store ?T)" "length (buckets ?T) = 2 ^ depth ?T"
    "depth_b (store ?T ! 0) \<le> depth ?T" by simp_all
  from Split_moves_and_redirects [OF h, of "\<lambda>k. nat k" 0]
  obtain t' where r: "Split_once (\<lambda>k. nat k) True ?T 0 0 = Inr (t', 4, 0, 4)"
    and d: "depth t' = 3"
    and s: "store t' = [\<lparr>depth_b = 3, entries = [(0, 0), (8, 80)]\<rparr>,
              \<lparr>depth_b = 2, entries = []\<rparr>, \<lparr>depth_b = 2, entries = []\<rparr>,
              \<lparr>depth_b = 2, entries = []\<rparr>,
              \<lparr>depth_b = 3, entries = [(4, 40)]\<rparr>]"
    by (auto simp: Hasher_def powInt_def)
  have "Split_once (\<lambda>k. nat k) True ?T 0 0 =
     Inr (\<lparr>depth = 3, buckets = [0, 1, 2, 3, 4, 1, 2, 3],
           store = [\<lparr>depth_b = 3, entries = [(0, 0), (8, 80)]\<rparr>,
              \<lparr>depth_b = 2, entries = []\<rparr>, \<lparr>depth_b = 2, entries = []\<rparr>,
              \<lparr>depth_b = 2, entries = []\<rparr>,
              \<lparr>depth_b = 3, entries = [(4, 40)]\<rparr>]\<rparr>, 4, 0, 4)"
    by code_simp
  with r d s show ?thesis by simp
qed

text \<open>
  Claim C3 as it is stated names the slots congruent to \<open>oldHash + 2 ^ d\<close> modulo
  \<open>2 ^ d\<close>. Slot 0 is such a slot in the split of the witness (\<open>d = 2\<close>, \<open>oldHash = 0\<close>), and
  it keeps the old page 0: the new page 4 is at slot 4 only.
\<close>

theorem redirect_modulus_counterexample:
  "Split_once (\<lambda>k. nat k) True
     \<lparr>depth = 2, buckets = [0, 1, 2, 3],
        store = [\<lparr>depth_b = 2, entries = [(0, 0), (4, 40), (8, 80)]\<rparr>,
           \<lparr>depth_b = 2, entries = []\<rparr>, \<lparr>depth_b = 2, entries = []\<rparr>,
           \<lparr>depth_b = 2, entries = []\<rparr>]\<rparr> 0 0 =
     Inr (\<lparr>depth = 3, buckets = [0, 1, 2, 3, 4, 1, 2, 3],
           store = [\<lparr>depth_b = 3, entries = [(0, 0), (8, 80)]\<rparr>,
              \<lparr>depth_b = 2, entries = []\<rparr>, \<lparr>depth_b = 2, entries = []\<rparr>,
              \<lparr>depth_b = 2, entries = []\<rparr>,
              \<lparr>depth_b = 3, entries = [(4, 40)]\<rparr>]\<rparr>, 4, 0, 4) \<and>
   (0::nat) mod 2 ^ 2 = (0 + 2 ^ 2) mod 2 ^ 2 \<and>
   [0, 1, 2, 3, 4, 1, 2, 3] ! 0 \<noteq> (4::nat)"
  by code_simp

section \<open>Properties of the join\<close>

subsection \<open>Extending a table\<close>

lemma ExtendTable_dir_inv:
  assumes di: "dir_inv t"
  shows "dir_inv (ExtendTable t)"
proof -
  define D where "D = depth t"
  define t' where "t' = ExtendTable t"
  have len: "length (buckets t) = 2 ^ depth t" using di by (simp add: dir_inv_def)
  have d': "depth t' = D + 1" and st: "store t' = store t"
    and len': "length (buckets t') = 2 ^ (D + 1)"
    using len by (simp_all add: ExtendTable_def t'_def D_def)
  have nth: "\<And>j. j < 2 ^ (D + 1) \<Longrightarrow> buckets t' ! j = buckets t ! (j mod 2 ^ D)"
    unfolding t'_def D_def by (rule ExtendTable_nth [OF len])
  have ba: "\<And>j. j < 2 ^ (D + 1) \<Longrightarrow> bucket_at t' j = bucket_at t (j mod 2 ^ D)"
    unfolding t'_def D_def by (rule ExtendTable_bucket_at_len [OF len])
  have lt: "\<And>j::nat. j mod 2 ^ D < 2 ^ depth t" by (simp add: D_def)
  have old: "\<And>j::nat. buckets t ! (j mod 2 ^ D) < length (store t) \<and>
       depth_b (bucket_at t (j mod 2 ^ D)) \<le> D"
    using di lt unfolding dir_inv_def D_def by blast
  have same: "\<And>i j::nat. (buckets t ! (i mod 2 ^ D) = buckets t ! (j mod 2 ^ D)) =
       (i mod 2 ^ depth_b (bucket_at t (i mod 2 ^ D)) = j mod 2 ^ depth_b (bucket_at t (i mod 2 ^ D)))"
  proof -
    fix i j :: nat
    have "(buckets t ! (i mod 2 ^ D) = buckets t ! (j mod 2 ^ D)) =
       (i mod 2 ^ D mod 2 ^ depth_b (bucket_at t (i mod 2 ^ D)) =
        j mod 2 ^ D mod 2 ^ depth_b (bucket_at t (i mod 2 ^ D)))"
      using di lt [of i] lt [of j] unfolding dir_inv_def D_def by blast
    then show "(buckets t ! (i mod 2 ^ D) = buckets t ! (j mod 2 ^ D)) =
       (i mod 2 ^ depth_b (bucket_at t (i mod 2 ^ D)) = j mod 2 ^ depth_b (bucket_at t (i mod 2 ^ D)))"
      using old [of i] by (simp add: mod_pow_le)
  qed
  have "dir_inv t'"
    unfolding dir_inv_def d'
  proof (intro conjI)
    show "length (buckets t') = 2 ^ (D + 1)" by (rule len')
    show "\<forall>i<2 ^ (D + 1). buckets t' ! i < length (store t') \<and> depth_b (bucket_at t' i) \<le> D + 1"
      using old by (simp add: nth ba st le_Suc_eq)
    show "\<forall>i<2 ^ (D + 1). \<forall>j<2 ^ (D + 1).
       (buckets t' ! i = buckets t' ! j) =
       (i mod 2 ^ depth_b (bucket_at t' i) = j mod 2 ^ depth_b (bucket_at t' i))"
      using same by (simp add: nth ba)
  qed
  then show ?thesis by (simp add: t'_def)
qed

lemma ExtendTable_slot_inv:
  assumes di: "dir_inv t" and si: "slot_inv H t"
  shows "slot_inv H (ExtendTable t)"
proof -
  have len: "length (buckets t) = 2 ^ depth t" using di by (simp add: dir_inv_def)
  have len': "length (buckets (ExtendTable t)) = 2 ^ (depth t + 1)"
    using len by (simp add: ExtendTable_def)
  show ?thesis
    unfolding slot_inv_iff Hasher_mod len'
  proof (intro allI impI ballI)
    fix i e
    assume i: "i < 2 ^ (depth t + 1)" and e: "e \<in> set (entries (bucket_at (ExtendTable t) i))"
    let ?j = "i mod 2 ^ depth t"
    have ba: "bucket_at (ExtendTable t) i = bucket_at t ?j"
      by (rule ExtendTable_bucket_at_len [OF len i])
    have j: "?j < length (buckets t)" by (simp add: len)
    have dle: "depth_b (bucket_at t ?j) \<le> depth t"
      using di j unfolding dir_inv_def len by simp
    from slot_invD [OF si j] e ba
    have "?j mod 2 ^ depth_b (bucket_at t ?j) = Hasher H (fst e) (depth_b (bucket_at t ?j))"
      by simp
    then show "i mod 2 ^ depth_b (bucket_at (ExtendTable t) i) =
        Hasher H (fst e) (depth_b (bucket_at (ExtendTable t) i))"
      by (simp add: ba mod_pow_le [OF dle])
  qed
qed

lemma ExtendTable_slot_entries:
  assumes di: "dir_inv t"
  shows "slot_entries H (ExtendTable t) k = slot_entries H t k"
proof -
  have len: "length (buckets t) = 2 ^ depth t" using di by (simp add: dir_inv_def)
  have d: "depth (ExtendTable t) = depth t + 1" by (simp add: ExtendTable_def)
  have "bucket_at (ExtendTable t) (Hasher H k (depth t + 1)) =
        bucket_at t (Hasher H k (depth t + 1) mod 2 ^ depth t)"
    by (rule ExtendTable_bucket_at_len [OF len Hasher_less])
  then show ?thesis by (simp add: slot_entries_def d Hasher_down)
qed

lemma align_depths_inv:
  assumes "dir_inv l" and "dir_inv r" and "align_depths l r = (l', r')"
  shows "dir_inv l' \<and> dir_inv r' \<and> depth l' = depth r' \<and>
         (slot_inv H l \<longrightarrow> slot_inv H l') \<and> (slot_inv H r \<longrightarrow> slot_inv H r') \<and>
         (\<forall>k. slot_entries H l' k = slot_entries H l k) \<and>
         (\<forall>k. slot_entries H r' k = slot_entries H r k)"
  using assms
proof (induction l r rule: align_depths.induct)
  case (1 l r)
  show ?case
  proof (cases "depth l = depth r")
    case True
    with "1.prems" show ?thesis by (simp add: align_depths.simps)
  next
    case ne: False
    show ?thesis
    proof (cases "depth l < depth r")
      case True
      with ne "1.prems"(3) have a: "align_depths (ExtendTable l) r = (l', r')"
        by (simp add: align_depths.simps [of l r])
      from "1.IH"(1) [OF ne True ExtendTable_dir_inv [OF "1.prems"(1)] "1.prems"(2) a]
      show ?thesis
        using ExtendTable_slot_inv [OF "1.prems"(1)] ExtendTable_slot_entries [OF "1.prems"(1)]
        by simp
    next
      case False
      with ne "1.prems"(3) have a: "align_depths l (ExtendTable r) = (l', r')"
        by (simp add: align_depths.simps [of l r])
      from "1.IH"(2) [OF ne False "1.prems"(1) ExtendTable_dir_inv [OF "1.prems"(2)] a]
      show ?thesis
        using ExtendTable_slot_inv [OF "1.prems"(2)] ExtendTable_slot_entries [OF "1.prems"(2)]
        by simp
    qed
  qed
qed

subsection \<open>The build phase\<close>

lemma build_run:
  "run_ops H BS (build_ops fr L u) t = Some t' \<Longrightarrow>
   foldl (\<lambda>tempIndex entry.
            snd (HashTable_Insert H BS fr tempIndex (fst (orient u entry)) (snd (orient u entry))))
     t L = t'"
  by (induction L arbitrary: t) (auto simp: build_ops_def split: prod.splits option.splits)

lemma build_inv:
  assumes "dir_inv t" and "run_ops H BS (build_ops fr L u) t = Some t'"
  shows "dir_inv t' \<and> (slot_inv H t \<longrightarrow> slot_inv H t') \<and>
         (\<forall>k. slot_entries H t' k =
               slot_entries H t k @ filter (\<lambda>e. fst e = k) (map (orient u) L))"
  using assms
proof (induction L arbitrary: t)
  case Nil
  then show ?case by (simp add: build_ops_def)
next
  case (Cons e L)
  from Cons.prems(2) obtain t1
    where i: "HashTable_Insert H BS fr t (fst (orient u e)) (snd (orient u e)) = (None, t1)"
      and r: "run_ops H BS (build_ops fr L u) t1 = Some t'"
    by (auto simp: build_ops_def split: prod.splits option.splits)
  from Insert_inv [OF Cons.prems(1) i]
  have d1: "dir_inv t1" and s1: "slot_inv H t \<longrightarrow> slot_inv H t1"
    and e1: "\<And>k. slot_entries H t1 k =
               slot_entries H t k @ filter (\<lambda>x. fst x = k) [orient u e]"
    by (auto simp: orient_def)
  from Cons.IH [OF d1 r] s1 e1 show ?case by simp
qed

lemma buildHashIndex_inv:
  assumes ok: "run_ops H BS (build_ops fr L u) NewHashTable \<noteq> None"
  shows "dir_inv (buildHashIndex H BS fr L u) \<and> slot_inv H (buildHashIndex H BS fr L u) \<and>
         (\<forall>k. slot_entries H (buildHashIndex H BS fr L u) k =
               filter (\<lambda>e. fst e = k) (map (orient u) L))"
proof -
  from ok obtain t where r: "run_ops H BS (build_ops fr L u) NewHashTable = Some t" by auto
  have b: "buildHashIndex H BS fr L u = t"
    unfolding buildHashIndex_def by (rule build_run [OF r])
  from build_inv [OF dir_inv_New r, of] show ?thesis
    by (simp add: b slot_inv_New slot_entries_New)
qed

subsection \<open>Where an entry lies\<close>

lemma entry_placed:
  assumes di: "dir_inv t" and si: "slot_inv H t" and i: "i < 2 ^ depth t"
    and e: "e \<in> set (entries (bucket_at t i))"
  shows "buckets t ! i = buckets t ! Hasher H (fst e) (depth t)"
proof -
  have len: "length (buckets t) = 2 ^ depth t" using di by (simp add: dir_inv_def)
  have dle: "depth_b (bucket_at t i) \<le> depth t" using di i by (simp add: dir_inv_def)
  have "i mod 2 ^ depth_b (bucket_at t i) = Hasher H (fst e) (depth_b (bucket_at t i))"
    using slot_invD [OF si _ e] i len by simp
  also have "\<dots> = Hasher H (fst e) (depth t) mod 2 ^ depth_b (bucket_at t i)"
    by (simp add: Hasher_down [OF dle])
  finally show ?thesis
    using di i Hasher_less [of H "fst e" "depth t"] unfolding dir_inv_def by blast
qed

lemma entry_in_slot:
  assumes "e \<in> set (slot_entries H t k)"
  shows "e \<in> set (entries (bucket_at t (Hasher H k (depth t)))) \<and> fst e = k"
  using assms by (simp add: slot_entries_def)

lemma distinct_by_key:
  "(\<And>k. distinct (filter (\<lambda>e. fst e = k) es)) \<Longrightarrow> distinct es"
proof (induction es)
  case Nil
  then show ?case by simp
next
  case (Cons a es)
  have "distinct es"
  proof (rule Cons.IH)
    fix k show "distinct (filter (\<lambda>e. fst e = k) es)"
      using Cons.prems [of k] by (simp split: if_splits)
  qed
  moreover have "a \<notin> set es" using Cons.prems [of "fst a"] by simp
  ultimately show ?case by simp
qed

lemma bucket_distinct:
  assumes di: "dir_inv t" and si: "slot_inv H t" and i: "i < 2 ^ depth t"
    and se: "\<And>k. distinct (slot_entries H t k)"
  shows "distinct (entries (bucket_at t i))"
proof (rule distinct_by_key)
  fix k
  show "distinct (filter (\<lambda>e. fst e = k) (entries (bucket_at t i)))"
  proof (cases "\<exists>e \<in> set (entries (bucket_at t i)). fst e = k")
    case True
    then obtain e where e: "e \<in> set (entries (bucket_at t i))" and k: "fst e = k" by blast
    from entry_placed [OF di si i e] k
    have "bucket_at t i = bucket_at t (Hasher H k (depth t))" by (simp add: bucket_at_def)
    then show ?thesis using se [of k] by (simp add: slot_entries_def)
  next
    case False
    then have "filter (\<lambda>e. fst e = k) (entries (bucket_at t i)) = []"
      by (auto simp: filter_empty_conv)
    then show ?thesis by simp
  qed
qed

subsection \<open>The pairs of buckets\<close>

lemma unseen_pairs_set: "set (unseen_pairs seen zs) = set zs - set seen"
  by (induction seen zs rule: unseen_pairs.induct) auto

lemma unseen_pairs_distinct: "distinct (unseen_pairs seen zs)"
  by (induction seen zs rule: unseen_pairs.induct) (auto simp: unseen_pairs_set)

subsection \<open>One probe\<close>

lemma concat_map_if: "concat (map (\<lambda>x. if P x then [F x] else []) xs) = map F (filter P xs)"
  by (induction xs) simp_all

lemma Contains_foldl_member:
  "k \<in> set ks \<Longrightarrow> BloomFilter_Contains xx mm (foldl (BloomFilter_Insert xx mm) f ks) k"
proof (induction ks arbitrary: f)
  case Nil
  then show ?case by simp
next
  case (Cons a ks)
  show ?case
  proof (cases "k = a")
    case True
    then show ?thesis by (simp add: Contains_foldl_mono Contains_after_Insert)
  next
    case False
    with Cons.prems have "k \<in> set ks" by simp
    then show ?thesis by (simp add: Cons.IH)
  qed
qed

lemma orient_orient: "orient u (orient u e) = e"
  by (simp add: orient_def)

lemma orient_inj: "orient u a = orient u b \<Longrightarrow> a = b"
  by (metis orient_orient)

lemma joinKey_orient: "joinKey u (orient u e) = fst e"
  by (simp add: joinKey_def orient_def)

lemma fst_orient: "fst (orient u e) = joinKey u e"
  by (simp add: joinKey_def orient_def)

lemma probeBuckets_eq:
  "probeBuckets xx mm lB rB jl jr =
   (if depth_b lB \<noteq> depth_b rB
    then Inl (Error ''the size of lBucket is not equal with the size of rBucket'')
    else Inr (concat (map (\<lambda>re.
          if BloomFilter_Contains xx mm
               (foldl (BloomFilter_Insert xx mm) (CreateFilter DEFAULT_FILTER_SIZE)
                  (map fst (entries lB))) (fst re)
          then map (\<lambda>le. (orient jl le, orient jr re))
                 (filter (\<lambda>le. fst le = fst re) (entries lB))
          else []) (entries rB))))"
  by (simp add: probeBuckets_def Let_def concat_map_if cong: if_cong)

lemma probeBuckets_Inr:
  "probeBuckets xx mm lB rB jl jr = Inr ps \<Longrightarrow>
   depth_b lB = depth_b rB \<and>
   ps = concat (map (\<lambda>re.
          if BloomFilter_Contains xx mm
               (foldl (BloomFilter_Insert xx mm) (CreateFilter DEFAULT_FILTER_SIZE)
                  (map fst (entries lB))) (fst re)
          then map (\<lambda>le. (orient jl le, orient jr re))
                 (filter (\<lambda>le. fst le = fst re) (entries lB))
          else []) (entries rB))"
  unfolding probeBuckets_eq by (auto split: if_splits)

lemma probe_mem:
  assumes "probeBuckets xx mm lB rB jl jr = Inr ps" and "(a, b) \<in> set ps"
  shows "\<exists>le \<in> set (entries lB). \<exists>re \<in> set (entries rB).
           fst le = fst re \<and> a = orient jl le \<and> b = orient jr re"
  using assms(2) unfolding conjunct2 [OF probeBuckets_Inr [OF assms(1)]]
  by (auto split: if_splits)

lemma probe_complete:
  assumes p: "probeBuckets xx mm lB rB jl jr = Inr ps"
    and le: "le \<in> set (entries lB)" and re: "re \<in> set (entries rB)" and k: "fst le = fst re"
  shows "(orient jl le, orient jr re) \<in> set ps"
proof -
  have "fst le \<in> fst ` set (entries lB)" using le by (rule imageI)
  then have "fst re \<in> set (map fst (entries lB))" using k by simp
  then have c: "BloomFilter_Contains xx mm
               (foldl (BloomFilter_Insert xx mm) (CreateFilter DEFAULT_FILTER_SIZE)
                  (map fst (entries lB))) (fst re)"
    by (rule Contains_foldl_member)
  show ?thesis
    unfolding conjunct2 [OF probeBuckets_Inr [OF p]]
    using c le re k by auto
qed

lemma distinct_concat_map:
  "distinct xs \<Longrightarrow> (\<And>x. x \<in> set xs \<Longrightarrow> distinct (f x)) \<Longrightarrow>
   (\<And>x y. x \<in> set xs \<Longrightarrow> y \<in> set xs \<Longrightarrow> x \<noteq> y \<Longrightarrow> set (f x) \<inter> set (f y) = {}) \<Longrightarrow>
   distinct (concat (map f xs))"
proof (induction xs)
  case Nil
  then show ?case by simp
next
  case (Cons a xs)
  have "distinct (concat (map f xs))"
    using Cons.prems by (intro Cons.IH) auto
  moreover have "distinct (f a)" using Cons.prems(2) by simp
  moreover have "set (f a) \<inter> (\<Union>x\<in>set xs. set (f x)) = {}"
    using Cons.prems(1) Cons.prems(3) [of a] by fastforce
  ultimately show ?case by simp
qed

lemma probe_distinct:
  assumes p: "probeBuckets xx mm lB rB jl jr = Inr ps"
    and dl: "distinct (entries lB)" and dr: "distinct (entries rB)"
  shows "distinct ps"
  unfolding conjunct2 [OF probeBuckets_Inr [OF p]]
proof (rule distinct_concat_map [OF dr])
  fix re
  show "distinct (if BloomFilter_Contains xx mm
               (foldl (BloomFilter_Insert xx mm) (CreateFilter DEFAULT_FILTER_SIZE)
                  (map fst (entries lB))) (fst re)
          then map (\<lambda>le. (orient jl le, orient jr re))
                 (filter (\<lambda>le. fst le = fst re) (entries lB))
          else [])"
    using dl by (auto simp: distinct_map inj_on_def dest: orient_inj)
next
  fix x y :: HashEntry
  assume "x \<noteq> y"
  then show "set (if BloomFilter_Contains xx mm
               (foldl (BloomFilter_Insert xx mm) (CreateFilter DEFAULT_FILTER_SIZE)
                  (map fst (entries lB))) (fst x)
          then map (\<lambda>le. (orient jl le, orient jr x))
                 (filter (\<lambda>le. fst le = fst x) (entries lB))
          else []) \<inter>
        set (if BloomFilter_Contains xx mm
               (foldl (BloomFilter_Insert xx mm) (CreateFilter DEFAULT_FILTER_SIZE)
                  (map fst (entries lB))) (fst y)
          then map (\<lambda>le. (orient jl le, orient jr y))
                 (filter (\<lambda>le. fst le = fst y) (entries lB))
          else []) = {}"
    by (auto dest: orient_inj)
qed

subsection \<open>The join\<close>

lemma emitted_mem: "x \<in> set (emitted probes) \<longleftrightarrow> (\<exists>ps. Inr ps \<in> set probes \<and> x \<in> set ps)"
  by (force simp: emitted_def split: sum.splits)

lemma emitted_map:
  "emitted (map f xs) = concat (map (\<lambda>x. case f x of Inl err \<Rightarrow> [] | Inr pairs \<Rightarrow> pairs) xs)"
  by (simp add: emitted_def comp_def)

lemma probes_okD: "probes_ok probes \<Longrightarrow> p \<in> set probes \<Longrightarrow> \<exists>ps. p = Inr ps"
  by (cases p) (auto simp: probes_ok_def list_all_iff)

lemma Join_Inr:
  assumes "Join xx mm H BS fr L R jl jr = Inr probes"
    and "align_depths (buildHashIndex H BS fr L jl) (buildHashIndex H BS fr R jr) = (tL, tR)"
  shows "probes = map (\<lambda>(lpn, rpn). probeBuckets xx mm (store tL ! lpn) (store tR ! rpn) jl jr)
                    (unseen_pairs [] (zip (buckets tL) (buckets tR)))"
  using assms by (simp add: Join_def Let_def split: if_splits)

lemma Join_sound:
  assumes j: "Join xx mm H BS fr L R jl jr = Inr probes" and m: "(l, r) \<in> set (emitted probes)"
  shows "joinKey jl l = joinKey jr r"
proof -
  obtain tL tR
    where a: "align_depths (buildHashIndex H BS fr L jl) (buildHashIndex H BS fr R jr) = (tL, tR)"
    by (meson surj_pair)
  note pr = Join_Inr [OF j a]
  from m obtain ps where i: "Inr ps \<in> set probes" and lr: "(l, r) \<in> set ps"
    by (auto simp: emitted_mem)
  from i obtain lpn rpn
    where p: "probeBuckets xx mm (store tL ! lpn) (store tR ! rpn) jl jr = Inr ps"
    unfolding pr by auto
  from probe_mem [OF p lr] obtain le re
    where "fst le = fst re" and "l = orient jl le" and "r = orient jr re" by blast
  then show ?thesis by (simp add: joinKey_orient)
qed

lemma Join_tables:
  assumes okL: "run_ops H BS (build_ops fr L jl) NewHashTable \<noteq> None"
    and okR: "run_ops H BS (build_ops fr R jr) NewHashTable \<noteq> None"
    and a: "align_depths (buildHashIndex H BS fr L jl) (buildHashIndex H BS fr R jr) = (tL, tR)"
  shows "dir_inv tL \<and> dir_inv tR \<and> depth tL = depth tR \<and> slot_inv H tL \<and> slot_inv H tR \<and>
    (\<forall>k. slot_entries H tL k = filter (\<lambda>e. fst e = k) (map (orient jl) L)) \<and>
    (\<forall>k. slot_entries H tR k = filter (\<lambda>e. fst e = k) (map (orient jr) R))"
  using buildHashIndex_inv [OF okL] buildHashIndex_inv [OF okR]
    align_depths_inv [OF _ _ a, of H] by simp

lemma bucket_pairs_set:
  assumes "dir_inv tL" and "dir_inv tR" and "depth tL = depth tR"
  shows "set (unseen_pairs [] (zip (buckets tL) (buckets tR))) =
         {(buckets tL ! i, buckets tR ! i) | i. i < 2 ^ depth tL}"
  using assms by (auto simp: unseen_pairs_set set_zip dir_inv_def)

lemma Join_returns:
  assumes okL: "run_ops H BS (build_ops fr L jl) NewHashTable \<noteq> None"
    and okR: "run_ops H BS (build_ops fr R jr) NewHashTable \<noteq> None"
  shows "\<exists>probes. Join xx mm H BS fr L R jl jr = Inr probes"
proof -
  obtain tL tR
    where a: "align_depths (buildHashIndex H BS fr L jl) (buildHashIndex H BS fr R jr) = (tL, tR)"
    by (meson surj_pair)
  from Join_tables [OF okL okR a]
  have diL: "dir_inv tL" and diR: "dir_inv tR" and dep: "depth tL = depth tR" by simp_all
  have len: "length (buckets tR) = length (buckets tL)"
    using diL diR dep by (simp add: dir_inv_def)
  have "\<not> list_ex (\<lambda>(lBucketPN, rBucketPN).
                     length (store tL) \<le> lBucketPN \<or> length (store tR) \<le> rBucketPN)
          (unseen_pairs [] (zip (buckets tL) (buckets tR)))"
    unfolding list_ex_iff bucket_pairs_set [OF diL diR dep]
    using dir_inv_slot [OF diL] dir_inv_slot [OF diR] dep by (auto simp: not_le)
  then show ?thesis by (simp add: Join_def a Let_def len)
qed

lemma Join_complete:
  assumes j: "Join xx mm H BS fr L R jl jr = Inr probes"
    and okL: "run_ops H BS (build_ops fr L jl) NewHashTable \<noteq> None"
    and okR: "run_ops H BS (build_ops fr R jr) NewHashTable \<noteq> None"
    and pok: "probes_ok probes"
    and l: "l \<in> set L" and r: "r \<in> set R" and k: "joinKey jl l = joinKey jr r"
  shows "(l, r) \<in> set (emitted probes)"
proof -
  obtain tL tR
    where a: "align_depths (buildHashIndex H BS fr L jl) (buildHashIndex H BS fr R jr) = (tL, tR)"
    by (meson surj_pair)
  note pr = Join_Inr [OF j a]
  from Join_tables [OF okL okR a]
  have diL: "dir_inv tL" and diR: "dir_inv tR" and dep: "depth tL = depth tR"
    and seL: "\<And>k. slot_entries H tL k = filter (\<lambda>e. fst e = k) (map (orient jl) L)"
    and seR: "\<And>k. slot_entries H tR k = filter (\<lambda>e. fst e = k) (map (orient jr) R)"
    by simp_all
  define h where "h = Hasher H (joinKey jl l) (depth tL)"
  have h: "h < 2 ^ depth tL" by (simp add: h_def Hasher_less)
  have "orient jl l \<in> set (slot_entries H tL (joinKey jl l))"
    using l by (simp add: seL fst_orient)
  then have le: "orient jl l \<in> set (entries (bucket_at tL h))"
    by (simp add: slot_entries_def h_def)
  have "orient jr r \<in> set (slot_entries H tR (joinKey jl l))"
    using r k by (simp add: seR fst_orient)
  then have re: "orient jr r \<in> set (entries (bucket_at tR h))"
    by (simp add: slot_entries_def h_def dep)
  have "(buckets tL ! h, buckets tR ! h) \<in> set (unseen_pairs [] (zip (buckets tL) (buckets tR)))"
    unfolding bucket_pairs_set [OF diL diR dep] using h by blast
  then have pin: "probeBuckets xx mm (bucket_at tL h) (bucket_at tR h) jl jr \<in> set probes"
    unfolding pr bucket_at_def by force
  with pok obtain ps where p: "probeBuckets xx mm (bucket_at tL h) (bucket_at tR h) jl jr = Inr ps"
    by (auto dest: probes_okD)
  from probe_complete [OF p le re] k
  have "(l, r) \<in> set ps" by (simp add: fst_orient orient_orient)
  then show ?thesis using pin p by (auto simp: emitted_mem)
qed

lemma distinct_stored:
  assumes "distinct (map (joinKey u) L)"
  shows "distinct (filter (\<lambda>e. fst e = k) (map (orient u) L))"
proof -
  from assms have "distinct L" by (simp add: distinct_map)
  then have "distinct (map (orient u) L)"
    by (auto simp: distinct_map inj_on_def dest: orient_inj)
  then show ?thesis by simp
qed

lemma Join_distinct:
  assumes j: "Join xx mm H BS fr L R jl jr = Inr probes"
    and okL: "run_ops H BS (build_ops fr L jl) NewHashTable \<noteq> None"
    and okR: "run_ops H BS (build_ops fr R jr) NewHashTable \<noteq> None"
    and dL: "distinct (map (joinKey jl) L)" and dR: "distinct (map (joinKey jr) R)"
  shows "distinct (emitted probes)"
proof -
  obtain tL tR
    where a: "align_depths (buildHashIndex H BS fr L jl) (buildHashIndex H BS fr R jr) = (tL, tR)"
    by (meson surj_pair)
  note pr = Join_Inr [OF j a]
  from Join_tables [OF okL okR a]
  have diL: "dir_inv tL" and diR: "dir_inv tR" and dep: "depth tL = depth tR"
    and siL: "slot_inv H tL" and siR: "slot_inv H tR"
    and seL: "\<And>k. slot_entries H tL k = filter (\<lambda>e. fst e = k) (map (orient jl) L)"
    and seR: "\<And>k. slot_entries H tR k = filter (\<lambda>e. fst e = k) (map (orient jr) R)"
    by simp_all
  have bdL: "\<And>i. i < 2 ^ depth tL \<Longrightarrow> distinct (entries (bucket_at tL i))"
    by (rule bucket_distinct [OF diL siL]) (simp_all add: seL distinct_stored [OF dL])
  have bdR: "\<And>i. i < 2 ^ depth tL \<Longrightarrow> distinct (entries (bucket_at tR i))"
    by (rule bucket_distinct [OF diR siR]) (simp_all add: seR distinct_stored [OF dR] dep)
  define g where "g = (\<lambda>x. case (case x of (lpn, rpn) \<Rightarrow>
         probeBuckets xx mm (store tL ! lpn) (store tR ! rpn) jl jr) of
       Inl err \<Rightarrow> [] | Inr pairs \<Rightarrow> pairs)"
  have g: "\<And>i z. z \<in> set (g (buckets tL ! i, buckets tR ! i)) \<Longrightarrow>
       \<exists>ps. probeBuckets xx mm (bucket_at tL i) (bucket_at tR i) jl jr = Inr ps \<and> z \<in> set ps"
  proof -
    fix i z
    assume z: "z \<in> set (g (buckets tL ! i, buckets tR ! i))"
    show "\<exists>ps. probeBuckets xx mm (bucket_at tL i) (bucket_at tR i) jl jr = Inr ps \<and> z \<in> set ps"
    proof (cases "probeBuckets xx mm (bucket_at tL i) (bucket_at tR i) jl jr")
      case (Inl e)
      with z show ?thesis by (simp add: g_def bucket_at_def)
    next
      case (Inr ps)
      with z show ?thesis by (simp add: g_def bucket_at_def)
    qed
  qed
  have em: "emitted probes = concat (map g (unseen_pairs [] (zip (buckets tL) (buckets tR))))"
    unfolding pr emitted_map g_def ..
  show ?thesis
    unfolding em
  proof (rule distinct_concat_map [OF unseen_pairs_distinct])
    fix x
    assume "x \<in> set (unseen_pairs [] (zip (buckets tL) (buckets tR)))"
    then obtain i where i: "i < 2 ^ depth tL" and x: "x = (buckets tL ! i, buckets tR ! i)"
      unfolding bucket_pairs_set [OF diL diR dep] by blast
    show "distinct (g x)"
    proof (cases "probeBuckets xx mm (bucket_at tL i) (bucket_at tR i) jl jr")
      case (Inl e)
      then show ?thesis by (simp add: x g_def bucket_at_def)
    next
      case (Inr ps)
      from probe_distinct [OF Inr bdL [OF i] bdR [OF i]] Inr
      show ?thesis by (simp add: x g_def bucket_at_def)
    qed
  next
    fix x y
    assume "x \<in> set (unseen_pairs [] (zip (buckets tL) (buckets tR)))"
      and "y \<in> set (unseen_pairs [] (zip (buckets tL) (buckets tR)))"
      and ne: "x \<noteq> y"
    then obtain i i' where i: "i < 2 ^ depth tL" and x: "x = (buckets tL ! i, buckets tR ! i)"
      and i': "i' < 2 ^ depth tL" and y: "y = (buckets tL ! i', buckets tR ! i')"
      unfolding bucket_pairs_set [OF diL diR dep] by blast
    show "set (g x) \<inter> set (g y) = {}"
    proof (rule ccontr)
      assume "set (g x) \<inter> set (g y) \<noteq> {}"
      then obtain a b where zx: "(a, b) \<in> set (g x)" and zy: "(a, b) \<in> set (g y)" by auto
      from g [OF zx [unfolded x]] obtain ps
        where p: "probeBuckets xx mm (bucket_at tL i) (bucket_at tR i) jl jr = Inr ps"
          and m: "(a, b) \<in> set ps" by blast
      from g [OF zy [unfolded y]] obtain ps'
        where p': "probeBuckets xx mm (bucket_at tL i') (bucket_at tR i') jl jr = Inr ps'"
          and m': "(a, b) \<in> set ps'" by blast
      from probe_mem [OF p m] obtain le re
        where le: "le \<in> set (entries (bucket_at tL i))" and re: "re \<in> set (entries (bucket_at tR i))"
          and ab: "a = orient jl le" "b = orient jr re" by blast
      from probe_mem [OF p' m'] obtain le' re'
        where le': "le' \<in> set (entries (bucket_at tL i'))"
          and re': "re' \<in> set (entries (bucket_at tR i'))"
          and ab': "a = orient jl le'" "b = orient jr re'" by blast
      from ab ab' have eq: "le' = le" "re' = re" by (auto dest: orient_inj)
      have "buckets tL ! i = buckets tL ! i'"
        using entry_placed [OF diL siL i le] entry_placed [OF diL siL i' le'] eq by simp
      moreover have "buckets tR ! i = buckets tR ! i'"
        using entry_placed [OF diR siR _ re] entry_placed [OF diR siR _ re'] eq i i' dep by simp
      ultimately show False using ne x y by simp
    qed
  qed
qed

text \<open>
  Scenario S3 of the specification: no bucket is split, all buckets have local depth 2,
  and the join emits the two matching pairs.
\<close>

lemma Join_S3:
  "Join (\<lambda>k n. nat k mod n) (\<lambda>k n. nat (5 * k + 2) mod n) (\<lambda>k. nat k) 4 8
     [(1, 10), (2, 20), (3, 30)] [(2, 200), (3, 300), (4, 400)] True True =
     Inr [Inr [], Inr [], Inr [((2, 20), (2, 200))], Inr [((3, 30), (3, 300))]] \<and>
   emitted [Inr [], Inr [], Inr [((2, 20), (2, 200))], Inr [((3, 30), (3, 300))]] =
     [((2, 20), (2, 200)), ((3, 30), (3, 300))]"
  by code_simp

subsection \<open>A matching pair that the join does not emit\<close>

text \<open>
  Claim C6 does not hold of the code: a matching pair of input entries is lost where the
  two temporary tables have been split differently. \<open>Join\<close> makes the global depths of
  the two tables the same, and \<open>probeBuckets\<close> returns an error when the local depths
  of its two buckets differ. With room for four entries in a bucket, the left input with the
  keys 0, 4, 8 and 12 splits the bucket of slot 0 into two buckets of local depth 3, and the
  right input with the key 4 alone keeps its buckets of local depth 2. Every \<open>Insert\<close> of
  the two builds returns nil and \<open>Join\<close> starts its five probes. The left entry \<open>(4, 14)\<close>
  and the right entry \<open>(4, 24)\<close> have the same key on the join side. The two probes on the
  left buckets of depth 3 return the error on the depths, and no pair is emitted.
\<close>

theorem Join_loses_matching_pair:
  "run_ops (\<lambda>k. nat k) 4 (build_ops 8 [(0, 10), (4, 14), (8, 18), (12, 22)] True) NewHashTable
     \<noteq> None \<and>
   run_ops (\<lambda>k. nat k) 4 (build_ops 8 [(4, 24)] True) NewHashTable \<noteq> None \<and>
   ((4, 14) :: HashEntry) \<in> set [(0, 10), (4, 14), (8, 18), (12, 22)] \<and>
   ((4, 24) :: HashEntry) \<in> set [(4, 24)] \<and>
   joinKey True (4, 14) = joinKey True (4, 24) \<and>
   Join (\<lambda>k n. nat k mod n) (\<lambda>k n. nat (5 * k + 2) mod n) (\<lambda>k. nat k) 4 8
     [(0, 10), (4, 14), (8, 18), (12, 22)] [(4, 24)] True True =
     Inr [Inl (Error ''the size of lBucket is not equal with the size of rBucket''),
          Inr [], Inr [], Inr [],
          Inl (Error ''the size of lBucket is not equal with the size of rBucket'')] \<and>
   emitted [Inl (Error ''the size of lBucket is not equal with the size of rBucket''),
          Inr [], Inr [], Inr [],
          Inl (Error ''the size of lBucket is not equal with the size of rBucket'')] = []"
  by code_simp

end
